theory Spec2Isabelle
  imports Main "HOL-Library.Multiset" "HOL-Library.Sublist"
begin

text \<open>
  The program renders the pages of a literature library, extracts the links to documents
  from the markup, and downloads them with a pool of workers. The repository holds two
  versions of it. The one modelled here reads the markup with \<^verbatim>\<open>goquery\<close>, keeps
  only allow-listed links, cleans the segments of a filename with a regular expression
  and skips a download when \<^verbatim>\<open>fileExists\<close> holds; the other version, \<^verbatim>\<open>main.go\<close>,
  returns every \<^verbatim>\<open>href\<close> and does not clean the segments.
\<close>

section \<open>Go strings and the library functions the program calls\<close>

text \<open>
  A Go string is a sequence of bytes; \<^typ>\<open>string\<close> (a list of 8-bit characters) is
  exactly that. The functions below model the parts of the packages \<^verbatim>\<open>strings\<close>,
  \<^verbatim>\<open>path\<close> and \<^verbatim>\<open>regexp\<close> that the program calls, with their Go names.
\<close>

definition upper_letters :: string where
  "upper_letters = ''ABCDEFGHIJKLMNOPQRSTUVWXYZ''"

definition lower_letters :: string where
  "lower_letters = ''abcdefghijklmnopqrstuvwxyz''"

definition digits :: string where
  "digits = ''0123456789''"

text \<open>The character class \<^verbatim>\<open>[A-Za-z0-9]\<close> of the regular expression in step 3.\<close>

definition is_alnum :: "char \<Rightarrow> bool" where
  "is_alnum c \<longleftrightarrow> c \<in> set upper_letters \<or> c \<in> set lower_letters \<or> c \<in> set digits"

text \<open>\<^verbatim>\<open>strings.HasPrefix(s, prefix)\<close> and \<^verbatim>\<open>strings.HasSuffix(s, suffix)\<close>.\<close>

definition strings_HasPrefix :: "string \<Rightarrow> string \<Rightarrow> bool" where
  "strings_HasPrefix s p \<longleftrightarrow> take (length p) s = p"

definition strings_HasSuffix :: "string \<Rightarrow> string \<Rightarrow> bool" where
  "strings_HasSuffix s x \<longleftrightarrow> length x \<le> length s \<and> drop (length s - length x) s = x"

text \<open>\<^verbatim>\<open>strings.TrimSuffix(s, suffix)\<close>: \<^verbatim>\<open>s\<close> without the suffix when it has it.\<close>

definition strings_TrimSuffix :: "string \<Rightarrow> string \<Rightarrow> string" where
  "strings_TrimSuffix s x = (if strings_HasSuffix s x then take (length s - length x) s else s)"

text \<open>\<^verbatim>\<open>strings.Contains(s, substr)\<close>: some suffix of \<^verbatim>\<open>s\<close> starts with \<^verbatim>\<open>substr\<close>.\<close>

fun strings_Contains :: "string \<Rightarrow> string \<Rightarrow> bool" where
  "strings_Contains [] sub = (sub = [])"
| "strings_Contains (c # cs) sub = (strings_HasPrefix (c # cs) sub \<or> strings_Contains cs sub)"

text \<open>
  \<^verbatim>\<open>strings.Split(s, sep)\<close>: the pieces of \<^verbatim>\<open>s\<close> between the occurrences of
  \<^verbatim>\<open>sep\<close>, found from the left and not overlapping; always at least one piece when
  \<^verbatim>\<open>sep\<close> is not empty. \<^verbatim>\<open>split_from\<close> carries the piece read so far. With an empty
  separator Go cuts after every UTF-8 sequence; the program never does that, and the
  model cuts after every byte.
\<close>

function split_from :: "string \<Rightarrow> string \<Rightarrow> string \<Rightarrow> string list" where
  "split_from sep piece [] = [piece]"
| "split_from sep piece (c # cs) =
     (if strings_HasPrefix (c # cs) sep
      then piece # split_from sep [] (drop (length sep - 1) cs)
      else split_from sep (piece @ [c]) cs)"
  by pat_completeness auto
termination
  by (relation "measure (\<lambda>(sep, piece, s). length s)") auto

definition strings_Split :: "string \<Rightarrow> string \<Rightarrow> string list" where
  "strings_Split s sep = (if sep = [] then map (\<lambda>c. [c]) s else split_from sep [] s)"

text \<open>\<^verbatim>\<open>strings.Join(elems, sep)\<close>.\<close>

fun strings_Join :: "string list \<Rightarrow> string \<Rightarrow> string" where
  "strings_Join [] sep = []"
| "strings_Join [e] sep = e"
| "strings_Join (e # es) sep = e @ sep @ strings_Join es sep"

text \<open>\<^verbatim>\<open>strings.Trim(s, cutset)\<close>: all leading and trailing bytes of the cutset removed.\<close>

definition strings_Trim :: "string \<Rightarrow> string \<Rightarrow> string" where
  "strings_Trim s cutset =
     rev (dropWhile (\<lambda>c. c \<in> set cutset) (rev (dropWhile (\<lambda>c. c \<in> set cutset) s)))"

text \<open>
  \<^verbatim>\<open>strings.ToLower(s)\<close> on the letters \<^verbatim>\<open>A-Z\<close>. Go also maps letters beyond ASCII;
  the program lowers only strings that the regular expression has already reduced to
  ASCII letters, digits and hyphens, where the two agree.
\<close>

definition to_lower :: "char \<Rightarrow> char" where
  "to_lower c = (case map_of (zip upper_letters lower_letters) c of Some l \<Rightarrow> l | None \<Rightarrow> c)"

definition strings_ToLower :: "string \<Rightarrow> string" where
  "strings_ToLower s = map to_lower s"

text \<open>
  \<^verbatim>\<open>regexp.MustCompile(`[^A-Za-z0-9]+`).ReplaceAllString(seg, repl)\<close>: the matches are
  the maximal runs of bytes outside the class, taken from the left (the \<^verbatim>\<open>+\<close> is greedy),
  and each is replaced by \<^verbatim>\<open>repl\<close> (the program's \<^verbatim>\<open>"-"\<close> has no \<^verbatim>\<open>$\<close>
  reference to expand). Go matches runes, not bytes; every byte of a
  rune beyond ASCII (and every invalid byte) is outside the class, so the runs of runes
  and the runs of bytes cover the same text.
\<close>

function sanitize_ReplaceAllString :: "string \<Rightarrow> string \<Rightarrow> string" where
  "sanitize_ReplaceAllString [] repl = []"
| "sanitize_ReplaceAllString (c # cs) repl =
     (if is_alnum c then c # sanitize_ReplaceAllString cs repl
      else repl @ sanitize_ReplaceAllString (dropWhile (\<lambda>d. \<not> is_alnum d) cs) repl)"
  by pat_completeness auto
termination
  by (relation "measure (\<lambda>(s, repl). length s)") (auto simp: less_Suc_eq_le length_dropWhile_le)

text \<open>
  \<^verbatim>\<open>path.Base(p)\<close>: the last element of the path. Trailing slashes are removed first;
  the empty path gives \<^verbatim>\<open>"."\<close> and a path of slashes only gives \<^verbatim>\<open>"/"\<close>.
\<close>

definition strip_trailing_slashes :: "string \<Rightarrow> string" where
  "strip_trailing_slashes p = rev (dropWhile (\<lambda>c. c = CHR ''/'') (rev p))"

definition after_last_slash :: "string \<Rightarrow> string" where
  "after_last_slash p = rev (takeWhile (\<lambda>c. c \<noteq> CHR ''/'') (rev p))"

definition path_Base :: "string \<Rightarrow> string" where
  "path_Base p =
     (if p = [] then ''.''
      else let p1 = strip_trailing_slashes p;
               p2 = after_last_slash p1
           in if p2 = [] then ''/'' else p2)"

section \<open>Filename derivation\<close>

text \<open>
  \<^verbatim>\<open>url.Parse\<close> belongs to the Go standard library, not to the program, so it is a
  parameter of the model: a function from the raw string to an error or to the parsed
  URL. Of the parsed URL the program reads the field \<^verbatim>\<open>Path\<close> and the values that
  \<^verbatim>\<open>Query()\<close> returns; \<^verbatim>\<open>Values.Get(key)\<close> is the first value stored under the key,
  or the empty string.
\<close>

datatype error =
    UrlParseError
  | HtmlParseError
  | FetchError string
  | StatusError string
  | MkdirError string
  | CreateError string
  | CopyError string

record URL =
  Path :: string
  Query :: "(string \<times> string) list"

definition Values_Get :: "(string \<times> string) list \<Rightarrow> string \<Rightarrow> string" where
  "Values_Get vs key = (case map_of vs key of Some v \<Rightarrow> v | None \<Rightarrow> [])"

text \<open>Step 3 of \<^verbatim>\<open>createFileNameFromURL\<close>: what the loop does to one segment.\<close>

definition clean_segment :: "string \<Rightarrow> string" where
  "clean_segment seg =
     (let seg1 = sanitize_ReplaceAllString seg ''-'';
          seg2 = strings_Trim seg1 ''-'';
          seg3 = strings_ToLower seg2
      in seg3)"

text \<open>The loop of step 3, appending to \<^verbatim>\<open>cleaned\<close> the segments that are not empty.\<close>

fun clean_loop :: "string list \<Rightarrow> string list \<Rightarrow> string list" where
  "clean_loop [] cleaned = cleaned"
| "clean_loop (seg # rest) cleaned =
     (let seg' = clean_segment seg
      in if seg' \<noteq> [] then clean_loop rest (cleaned @ [seg']) else clean_loop rest cleaned)"

definition createFileNameFromURL :: "(string \<Rightarrow> error + URL) \<Rightarrow> string \<Rightarrow> string" where
  "createFileNameFromURL url_Parse rawURL =
     (case url_Parse rawURL of
        Inl err \<Rightarrow> ''invalid-url.pdf''
      | Inr parsedURL \<Rightarrow>
          let prd = Values_Get (Query parsedURL) ''prd'';
              parts = (if prd \<noteq> [] then strings_Split prd ''~~'' else []);
              parts = (if length parts = 0
                       then parts @ [strings_TrimSuffix (path_Base (Path parsedURL)) ''.pdf'']
                       else parts);
              cleaned = clean_loop parts [];
              filename = strings_Join cleaned ''-''
          in if \<not> strings_HasSuffix filename ''.pdf'' then filename @ ''.pdf'' else filename)"

text \<open>
  The values \<^verbatim>\<open>url.Parse\<close> and \<^verbatim>\<open>Query()\<close> return on the sample URLs used below:
  a document link with the composite \<^verbatim>\<open>prd\<close> parameter, a direct link to a PDF (the
  escaped space is decoded in \<^verbatim>\<open>Path\<close>), a link with an empty path, and a string
  without a scheme before its colon, which \<^verbatim>\<open>url.Parse\<close> rejects. Inputs outside the
  table are not used.
\<close>

definition sample_url_Parse :: "string \<Rightarrow> error + URL" where
  "sample_url_Parse rawURL =
     (if rawURL = ''https://x.thewercs.com/DirectDocumentDownloader/Document?prd=HRLS00001-3~~PDF~~MTR~~AGHS~~EN''
      then Inr \<lparr>Path = ''/DirectDocumentDownloader/Document'',
                 Query = [(''prd'', ''HRLS00001-3~~PDF~~MTR~~AGHS~~EN'')]\<rparr>
      else if rawURL = ''https://www.bio-rad.com/sites/default/files/webroot/web/pdf/TS_Staphylocoagulase%20Broth.pdf''
      then Inr \<lparr>Path = ''/sites/default/files/webroot/web/pdf/TS_Staphylocoagulase Broth.pdf'',
                 Query = []\<rparr>
      else if rawURL = ''https://www.bio-rad.com''
      then Inr \<lparr>Path = [], Query = []\<rparr>
      else if rawURL = ''://''
      then Inl UrlParseError
      else Inl UrlParseError)"

subsection \<open>The derivation as the specification words it\<close>

text \<open>
  The specification describes the cleaning of a segment by the maximal runs of
  characters: \<^verbatim>\<open>spec_runs\<close> cuts a string into its maximal runs of characters that
  agree on a predicate, and every run outside \<^verbatim>\<open>[A-Za-z0-9]\<close> becomes one hyphen.
\<close>

fun spec_runs :: "('a \<Rightarrow> bool) \<Rightarrow> 'a list \<Rightarrow> 'a list list" where
  "spec_runs P [] = []"
| "spec_runs P (x # xs) =
     (case spec_runs P xs of
        [] \<Rightarrow> [[x]]
      | r # rs \<Rightarrow> if P x = P (hd r) then (x # r) # rs else [x] # r # rs)"

definition spec_replace_runs :: "string \<Rightarrow> string" where
  "spec_replace_runs s =
     concat (map (\<lambda>r. if is_alnum (hd r) then r else ''-'') (spec_runs is_alnum s))"

definition spec_trim_hyphens :: "string \<Rightarrow> string" where
  "spec_trim_hyphens s =
     rev (dropWhile (\<lambda>c. c = CHR ''-'') (rev (dropWhile (\<lambda>c. c = CHR ''-'') s)))"

definition spec_clean :: "string \<Rightarrow> string" where
  "spec_clean seg = map to_lower (spec_trim_hyphens (spec_replace_runs seg))"

fun spec_join :: "string list \<Rightarrow> string" where
  "spec_join [] = []"
| "spec_join (s # ss) = s @ concat (map (\<lambda>t. CHR ''-'' # t) ss)"

definition spec_filename :: "string list \<Rightarrow> string" where
  "spec_filename segs =
     (let joined = spec_join (filter (\<lambda>s. s \<noteq> []) (map spec_clean segs))
      in if suffix ''.pdf'' joined then joined else joined @ ''.pdf'')"

text \<open>The segments step 1 or step 2 of \<^verbatim>\<open>createFileNameFromURL\<close> hands to step 3.\<close>

definition url_parts :: "URL \<Rightarrow> string list" where
  "url_parts u =
     (if Values_Get (Query u) ''prd'' \<noteq> []
      then strings_Split (Values_Get (Query u) ''prd'') ''~~''
      else [strings_TrimSuffix (path_Base (Path u)) ''.pdf''])"

section \<open>Link extraction\<close>

text \<open>
  \<^verbatim>\<open>goquery.NewDocumentFromReader\<close> is a library function as well, and a parameter of
  the model: from the markup to an error or to the parsed document. The document is the
  tree of its nodes; an element has a tag, its attributes in order, and its children.
  \<^verbatim>\<open>doc.Find(selector)\<close> returns the matching elements in document order, and
  \<^verbatim>\<open>Selection.Attr(name)\<close> the value of the first attribute of that name, if any.
\<close>

datatype node =
    Element string "(string \<times> string) list" "node list"
  | Text string

type_synonym document = "node list"

fun elements :: "node \<Rightarrow> node list" where
  "elements (Text t) = []"
| "elements (Element tag as cs) = Element tag as cs # concat (map elements cs)"

definition doc_Find :: "(node \<Rightarrow> bool) \<Rightarrow> document \<Rightarrow> node list" where
  "doc_Find selector doc = filter selector (concat (map elements doc))"

fun node_Attr :: "node \<Rightarrow> string \<Rightarrow> string option" where
  "node_Attr (Element tag as cs) name = map_of as name"
| "node_Attr (Text t) name = None"

text \<open>The selectors \<^verbatim>\<open>input[type='hidden']\<close>, \<^verbatim>\<open>option\<close> and \<^verbatim>\<open>a\<close>.\<close>

fun sel_hidden_input :: "node \<Rightarrow> bool" where
  "sel_hidden_input (Element tag as cs) \<longleftrightarrow> tag = ''input'' \<and> (''type'', ''hidden'') \<in> set as"
| "sel_hidden_input (Text t) \<longleftrightarrow> False"

fun sel_tag :: "string \<Rightarrow> node \<Rightarrow> bool" where
  "sel_tag name (Element tag as cs) \<longleftrightarrow> tag = name"
| "sel_tag name (Text t) \<longleftrightarrow> False"

definition allowedDomains :: "string list" where
  "allowedDomains =
     [''bio-rad-sds.thewercs.com/DirectDocumentDownloader/Document'',
      ''bio-rad.com/sites/default/files/webroot/web/pdf'']"

fun isAllowed_loop :: "string \<Rightarrow> string list \<Rightarrow> bool" where
  "isAllowed_loop url [] = False"
| "isAllowed_loop url (domain # rest) =
     (if strings_Contains url domain then True else isAllowed_loop url rest)"

definition isAllowed :: "string \<Rightarrow> bool" where
  "isAllowed url = isAllowed_loop url allowedDomains"

text \<open>What the extractor lets through: a string that starts with \<^verbatim>\<open>http\<close> and passes
  \<^verbatim>\<open>isAllowed\<close>.\<close>

definition allowed_link :: "string \<Rightarrow> bool" where
  "allowed_link u \<longleftrightarrow> prefix ''http'' u \<and> isAllowed u"

text \<open>The body of the loop over the pieces of a hidden input's value.\<close>

definition part_step :: "string list \<Rightarrow> string \<Rightarrow> string list" where
  "part_step urls part =
     (let fullURL =
            (if strings_HasPrefix part ''http'' then part
             else if strings_Contains part ''.thewercs.com'' \<or> strings_Contains part ''.bio-rad.com''
             then ''https://'' @ part
             else [])
      in if fullURL \<noteq> [] \<and> isAllowed fullURL then urls @ [fullURL] else urls)"

text \<open>The three callbacks handed to \<^verbatim>\<open>Each\<close>, each taking and returning \<^verbatim>\<open>urls\<close>.\<close>

definition hidden_input_step :: "string list \<Rightarrow> node \<Rightarrow> string list" where
  "hidden_input_step urls s =
     (case node_Attr s ''value'' of
        Some val \<Rightarrow> foldl part_step urls (strings_Split val ''~https://'')
      | None \<Rightarrow> urls)"

definition option_step :: "string list \<Rightarrow> node \<Rightarrow> string list" where
  "option_step urls s =
     (case node_Attr s ''value'' of
        Some val \<Rightarrow> if strings_HasPrefix val ''http'' \<and> isAllowed val then urls @ [val] else urls
      | None \<Rightarrow> urls)"

definition anchor_step :: "string list \<Rightarrow> node \<Rightarrow> string list" where
  "anchor_step urls s =
     (case node_Attr s ''href'' of
        Some href \<Rightarrow> if strings_HasPrefix href ''http'' \<and> isAllowed href then urls @ [href] else urls
      | None \<Rightarrow> urls)"

definition extractLinksFromHTML :: "(string \<Rightarrow> error + document) \<Rightarrow> string \<Rightarrow> string list" where
  "extractLinksFromHTML NewDocument htmlContent =
     (let urls = []
      in case NewDocument htmlContent of
           Inl err \<Rightarrow> urls
         | Inr doc \<Rightarrow>
             let urls = foldl hidden_input_step urls (doc_Find sel_hidden_input doc);
                 urls = foldl option_step urls (doc_Find (sel_tag ''option'') doc);
                 urls = foldl anchor_step urls (doc_Find (sel_tag ''a'') doc)
             in urls)"

text \<open>
  The documents the HTML parser builds for the sample markup used below (the parser
  supplies the \<^verbatim>\<open>html\<close>, \<^verbatim>\<open>head\<close> and \<^verbatim>\<open>body\<close> elements): the hidden input of the
  specification's scenario, and a page with candidates in all three sources, some on
  the allow-list and some not.
\<close>

definition scenario_markup :: string where
  \<open>scenario_markup =
     ''<input type="hidden" value="foo~https://example.bio-rad.com/sites/default/files/webroot/web/pdf/X.pdf">''\<close>

definition scenario_document :: document where
  "scenario_document =
     [Element ''html'' []
        [Element ''head'' [] [],
         Element ''body'' []
           [Element ''input''
              [(''type'', ''hidden''),
               (''value'', ''foo~https://example.bio-rad.com/sites/default/files/webroot/web/pdf/X.pdf'')]
              []]]]"

definition mixed_markup :: string where
  \<open>mixed_markup =
     ''<input type="hidden" value="https://evil.example/x.pdf~https://bio-rad-sds.thewercs.com/DirectDocumentDownloader/Document?prd=A~~PDF">'' @
     ''<select><option value="https://www.bio-rad.com/sites/default/files/webroot/web/pdf/a.pdf">A</option>'' @
     ''<option value="https://other.example/b.pdf">B</option></select>'' @
     ''<a href="https://www.bio-rad.com/sites/default/files/webroot/web/pdf/c.pdf">c</a>'' @
     ''<a href="/sites/default/files/webroot/web/pdf/d.pdf">d</a>''\<close>

definition mixed_document :: document where
  "mixed_document =
     [Element ''html'' []
        [Element ''head'' [] [],
         Element ''body'' []
           [Element ''input''
              [(''type'', ''hidden''),
               (''value'', ''https://evil.example/x.pdf~https://bio-rad-sds.thewercs.com/DirectDocumentDownloader/Document?prd=A~~PDF'')]
              [],
            Element ''select'' []
              [Element ''option''
                 [(''value'', ''https://www.bio-rad.com/sites/default/files/webroot/web/pdf/a.pdf'')]
                 [Text ''A''],
               Element ''option'' [(''value'', ''https://other.example/b.pdf'')] [Text ''B'']],
            Element ''a''
              [(''href'', ''https://www.bio-rad.com/sites/default/files/webroot/web/pdf/c.pdf'')]
              [Text ''c''],
            Element ''a'' [(''href'', ''/sites/default/files/webroot/web/pdf/d.pdf'')] [Text ''d'']]]]"

definition sample_NewDocument :: "string \<Rightarrow> error + document" where
  "sample_NewDocument htmlContent =
     (if htmlContent = scenario_markup then Inr scenario_document
      else if htmlContent = mixed_markup then Inr mixed_document
      else Inr [Element ''html'' [] [Element ''head'' [] [], Element ''body'' [] []]])"

text \<open>A parse that fails, whatever the markup: the error branch of the extractor.\<close>

definition failing_NewDocument :: "string \<Rightarrow> error + document" where
  "failing_NewDocument htmlContent = Inl HtmlParseError"

section \<open>Download\<close>

text \<open>
  The world \<^verbatim>\<open>downloadPDFFile\<close> acts on: the file system, a map from paths to regular
  files (with their content) and directories, and the list of the URLs fetched so far,
  one entry for every \<^verbatim>\<open>http.Get\<close>. Log lines are not part of the model.

  The server is a parameter: what \<^verbatim>\<open>http.Get\<close> returns for a URL, which may depend
  on how many requests were made before. A response carries its status and the bytes the
  body delivers; \<^verbatim>\<open>BodyFails\<close> says that reading the body ends in an error after them.

  Paths name files by their text. \<^verbatim>\<open>os.MkdirAll\<close> fails when the path is empty or
  a regular file, \<^verbatim>\<open>os.Create\<close> when the path is a directory; ancestors,
  permissions and links are not modelled.
\<close>

datatype entry = File string | Dir

record response =
  StatusCode :: int
  Status :: string
  Body :: string
  BodyFails :: bool

type_synonym server = "nat \<Rightarrow> string \<Rightarrow> error + response"

record world =
  fs :: "string \<rightharpoonup> entry"
  fetched :: "string list"

text \<open>
  \<^verbatim>\<open>filepath.Join\<close> on a system with the separator \<^verbatim>\<open>/\<close>: the non-empty elements
  joined by the separator, then \<^verbatim>\<open>Clean\<close>: no empty and no \<^verbatim>\<open>.\<close> elements, every
  \<^verbatim>\<open>..\<close> removed with the element before it, or dropped at the root.
\<close>

fun clean_elems :: "bool \<Rightarrow> string list \<Rightarrow> string list \<Rightarrow> string list" where
  "clean_elems rooted out [] = out"
| "clean_elems rooted out (e # es) =
     (if e = ''..''
      then (if out \<noteq> [] \<and> last out \<noteq> ''..'' then clean_elems rooted (butlast out) es
            else if rooted then clean_elems rooted out es
            else clean_elems rooted (out @ [''..'']) es)
      else clean_elems rooted (out @ [e]) es)"

definition filepath_Clean :: "string \<Rightarrow> string" where
  "filepath_Clean p =
     (let rooted = strings_HasPrefix p ''/'';
          elems = filter (\<lambda>e. e \<noteq> [] \<and> e \<noteq> ''.'') (strings_Split p ''/'');
          out = (if rooted then ''/'' else []) @ strings_Join (clean_elems rooted [] elems) ''/''
      in if out = [] then ''.'' else out)"

definition filepath_Join :: "string \<Rightarrow> string \<Rightarrow> string" where
  "filepath_Join dir name =
     (if dir \<noteq> [] then filepath_Clean (dir @ ''/'' @ name)
      else if name \<noteq> [] then filepath_Clean name
      else [])"

text \<open>\<^verbatim>\<open>fileExists\<close>: the path can be examined and is not a directory.\<close>

definition fileExists :: "world \<Rightarrow> string \<Rightarrow> bool" where
  "fileExists w filename =
     (case fs w filename of
        None \<Rightarrow> False
      | Some info \<Rightarrow> \<not> (info = Dir))"

definition http_Get :: "server \<Rightarrow> string \<Rightarrow> world \<Rightarrow> (error + response) \<times> world" where
  "http_Get srv url w = (srv (length (fetched w)) url, w\<lparr>fetched := fetched w @ [url]\<rparr>)"

definition os_MkdirAll :: "string \<Rightarrow> world \<Rightarrow> error option \<times> world" where
  "os_MkdirAll dir w =
     (if dir = [] then (Some (MkdirError dir), w)
      else case fs w dir of
        Some (File c) \<Rightarrow> (Some (MkdirError dir), w)
      | _ \<Rightarrow> (None, w\<lparr>fs := (fs w)(dir \<mapsto> Dir)\<rparr>))"

definition os_Create :: "string \<Rightarrow> world \<Rightarrow> error option \<times> world" where
  "os_Create name w =
     (case fs w name of
        Some Dir \<Rightarrow> (Some (CreateError name), w)
      | _ \<Rightarrow> (None, w\<lparr>fs := (fs w)(name \<mapsto> File [])\<rparr>))"

text \<open>\<^verbatim>\<open>io.Copy(outFile, resp.Body)\<close>: the bytes read reach the file also when the read
  then fails.\<close>

definition io_Copy :: "string \<Rightarrow> response \<Rightarrow> world \<Rightarrow> error option \<times> world" where
  "io_Copy name resp w =
     (let w' = w\<lparr>fs := (fs w)(name \<mapsto> File (Body resp))\<rparr>
      in if BodyFails resp then (Some (CopyError name), w') else (None, w'))"

definition downloadPDFFile ::
  "server \<Rightarrow> string \<Rightarrow> string \<Rightarrow> string \<Rightarrow> world \<Rightarrow> error option \<times> world" where
  "downloadPDFFile srv downloadURL outputDirectory outputFileName w =
     (let fullFilePath = filepath_Join outputDirectory outputFileName
      in if fileExists w fullFilePath then (None, w)
         else case http_Get srv downloadURL w of
           (Inl err, w1) \<Rightarrow> (Some (FetchError downloadURL), w1)
         | (Inr resp, w1) \<Rightarrow>
             if StatusCode resp \<noteq> 200 then (Some (StatusError (Status resp)), w1)
             else case os_MkdirAll outputDirectory w1 of
               (Some err, w2) \<Rightarrow> (Some err, w2)
             | (None, w2) \<Rightarrow>
                 (case os_Create fullFilePath w2 of
                    (Some err, w3) \<Rightarrow> (Some err, w3)
                  | (None, w3) \<Rightarrow>
                      (case io_Copy fullFilePath resp w3 of
                         (Some err, w4) \<Rightarrow> (Some err, w4)
                       | (None, w4) \<Rightarrow> (None, w4))))"

text \<open>Two calls of the download step, one after the other, on the same arguments.\<close>

definition download_twice ::
  "server \<Rightarrow> string \<Rightarrow> string \<Rightarrow> string \<Rightarrow> world \<Rightarrow> error option \<times> world" where
  "download_twice srv downloadURL outputDirectory outputFileName w =
     downloadPDFFile srv downloadURL outputDirectory outputFileName
       (snd (downloadPDFFile srv downloadURL outputDirectory outputFileName w))"

text \<open>Sample servers and a sample world: an empty file system, nothing fetched.\<close>

definition ok_server :: server where
  "ok_server n url =
     Inr \<lparr>StatusCode = 200, Status = ''200 OK'', Body = ''%PDF-1.4'', BodyFails = False\<rparr>"

definition not_found_server :: server where
  "not_found_server n url =
     Inr \<lparr>StatusCode = 404, Status = ''404 Not Found'', Body = ''gone'', BodyFails = False\<rparr>"

definition empty_world :: world where
  "empty_world = \<lparr>fs = Map.empty, fetched = []\<rparr>"

definition present_world :: world where
  "present_world = \<lparr>fs = [''PDFs'' \<mapsto> Dir, ''PDFs/a.pdf'' \<mapsto> File ''old''], fetched = []\<rparr>"

section \<open>Worker pool\<close>

text \<open>
  Step 3 of \<^verbatim>\<open>main\<close> and \<^verbatim>\<open>workerDownloadPDF\<close>, as threads that take turns. The
  state holds where \<^verbatim>\<open>main\<close> stands, the values buffered in \<^verbatim>\<open>urlChannel\<close> (first in,
  first out; its capacity is the number of URLs), whether the channel is closed, the
  counter of the wait group, the state of every worker started so far, and the download
  attempts made, each with the index of the worker that made it.

  \<^verbatim>\<open>main\<close>: the loop that starts the workers (\<^verbatim>\<open>wg.Add(1)\<close> and \<^verbatim>\<open>go\<close> are one step),
  the loop that sends the URLs (a send needs room in the buffer), \<^verbatim>\<open>close\<close>, and
  \<^verbatim>\<open>wg.Wait()\<close>, which returns when the counter is zero.

  A worker: \<^verbatim>\<open>range urlChannel\<close> takes the oldest buffered value, or ends the loop when
  the channel is closed and empty, or blocks; the loop body, \<^verbatim>\<open>createFileNameFromURL\<close>
  and \<^verbatim>\<open>downloadPDFFile\<close> with the error logged, is one attempt and returns to the
  receive; after the loop the deferred \<^verbatim>\<open>wg.Done()\<close> lowers the counter.
\<close>

datatype main_pc = Launching nat | Sending "string list" | Waiting | Finished

datatype worker = Receiving | Downloading string | Exited

datatype thread = MainThread | Worker nat

record pool =
  main :: main_pc
  urlChannel :: "string list"
  closed :: bool
  wg :: int
  workers :: "worker list"
  attempts :: "(nat \<times> string) list"

definition pool_init :: pool where
  "pool_init =
     \<lparr>main = Launching 0, urlChannel = [], closed = False, wg = 0, workers = [], attempts = []\<rparr>"

definition main_step :: "nat \<Rightarrow> string list \<Rightarrow> pool \<Rightarrow> pool option" where
  "main_step numberOfWorkers downloadURLs s =
     (case main s of
        Launching i \<Rightarrow>
          if i < numberOfWorkers
          then Some (s\<lparr>main := Launching (Suc i), wg := wg s + 1,
                       workers := workers s @ [Receiving]\<rparr>)
          else Some (s\<lparr>main := Sending downloadURLs\<rparr>)
      | Sending [] \<Rightarrow> Some (s\<lparr>main := Waiting, closed := True\<rparr>)
      | Sending (url # rest) \<Rightarrow>
          if length (urlChannel s) < length downloadURLs
          then Some (s\<lparr>main := Sending rest, urlChannel := urlChannel s @ [url]\<rparr>)
          else None
      | Waiting \<Rightarrow> if wg s = 0 then Some (s\<lparr>main := Finished\<rparr>) else None
      | Finished \<Rightarrow> None)"

definition workerDownloadPDF_step :: "nat \<Rightarrow> pool \<Rightarrow> pool option" where
  "workerDownloadPDF_step k s =
     (if k < length (workers s)
      then case workers s ! k of
             Receiving \<Rightarrow>
               (case urlChannel s of
                  downloadURL # rest \<Rightarrow>
                    Some (s\<lparr>urlChannel := rest,
                            workers := (workers s)[k := Downloading downloadURL]\<rparr>)
                | [] \<Rightarrow>
                    if closed s
                    then Some (s\<lparr>wg := wg s - 1, workers := (workers s)[k := Exited]\<rparr>)
                    else None)
           | Downloading downloadURL \<Rightarrow>
               Some (s\<lparr>workers := (workers s)[k := Receiving],
                       attempts := attempts s @ [(k, downloadURL)]\<rparr>)
           | Exited \<Rightarrow> None
      else None)"

fun fire :: "nat \<Rightarrow> string list \<Rightarrow> thread \<Rightarrow> pool \<Rightarrow> pool option" where
  "fire numberOfWorkers downloadURLs MainThread s = main_step numberOfWorkers downloadURLs s"
| "fire numberOfWorkers downloadURLs (Worker k) s = workerDownloadPDF_step k s"

text \<open>A schedule names the thread that moves at each step; a thread that cannot move
  (blocked or ended) makes the schedule impossible.\<close>

fun run :: "nat \<Rightarrow> string list \<Rightarrow> thread list \<Rightarrow> pool \<Rightarrow> pool option" where
  "run numberOfWorkers downloadURLs [] s = Some s"
| "run numberOfWorkers downloadURLs (t # ts) s =
     (case fire numberOfWorkers downloadURLs t s of
        None \<Rightarrow> None
      | Some s' \<Rightarrow> run numberOfWorkers downloadURLs ts s')"

text \<open>The URLs the workers hold, the workers that have not ended, what \<^verbatim>\<open>main\<close> has
  still to send, and a bound on the steps still to come.\<close>

fun in_hand :: "worker \<Rightarrow> string multiset" where
  "in_hand (Downloading u) = {#u#}"
| "in_hand w = {#}"

fun alive :: "worker \<Rightarrow> int" where
  "alive Exited = 0"
| "alive w = 1"

fun main_rest :: "string list \<Rightarrow> main_pc \<Rightarrow> string list" where
  "main_rest downloadURLs (Launching i) = downloadURLs"
| "main_rest downloadURLs (Sending rest) = rest"
| "main_rest downloadURLs pc = []"

fun main_weight :: "nat \<Rightarrow> string list \<Rightarrow> main_pc \<Rightarrow> nat" where
  "main_weight numberOfWorkers downloadURLs (Launching i) =
     2 * (numberOfWorkers - i) + 4 * length downloadURLs + 3"
| "main_weight numberOfWorkers downloadURLs (Sending rest) = 4 * length rest + 2"
| "main_weight numberOfWorkers downloadURLs Waiting = 1"
| "main_weight numberOfWorkers downloadURLs Finished = 0"

fun worker_weight :: "worker \<Rightarrow> nat" where
  "worker_weight Receiving = 1"
| "worker_weight (Downloading u) = 3"
| "worker_weight Exited = 0"

definition steps_left :: "nat \<Rightarrow> string list \<Rightarrow> pool \<Rightarrow> nat" where
  "steps_left numberOfWorkers downloadURLs s =
     main_weight numberOfWorkers downloadURLs (main s) + 3 * length (urlChannel s)
       + sum_list (map worker_weight (workers s))"

text \<open>What holds in every state the pool reaches: every URL is with \<^verbatim>\<open>main\<close>, in the
  channel, in a worker's hand or attempted; the counter counts the workers that have not
  ended; the workers are started before anything is sent; the channel is closed exactly
  when \<^verbatim>\<open>main\<close> has reached \<^verbatim>\<open>wg.Wait()\<close>; a worker ends only when the channel is
  closed and empty; \<^verbatim>\<open>wg.Wait()\<close> returns only at zero.\<close>

definition pool_inv :: "nat \<Rightarrow> string list \<Rightarrow> pool \<Rightarrow> bool" where
  "pool_inv numberOfWorkers downloadURLs s \<longleftrightarrow>
     mset (map snd (attempts s)) + sum_list (map in_hand (workers s))
       + mset (urlChannel s) + mset (main_rest downloadURLs (main s)) = mset downloadURLs
     \<and> wg s = sum_list (map alive (workers s))
     \<and> (case main s of
           Launching i \<Rightarrow> length (workers s) = i \<and> i \<le> numberOfWorkers
         | _ \<Rightarrow> length (workers s) = numberOfWorkers)
     \<and> (closed s \<longleftrightarrow> main s = Waiting \<or> main s = Finished)
     \<and> (Exited \<in> set (workers s) \<longrightarrow> closed s \<and> urlChannel s = [])
     \<and> (main s = Finished \<longrightarrow> wg s = 0)
     \<and> list_all (\<lambda>a. fst a < length (workers s)) (attempts s)"

text \<open>A schedule for two workers and three URLs, with receives, downloads and the sends
  of \<^verbatim>\<open>main\<close> interleaved.\<close>

definition sample_schedule :: "thread list" where
  "sample_schedule =
     [MainThread, MainThread, MainThread, MainThread, Worker 0, MainThread, Worker 1,
      Worker 0, MainThread, MainThread, Worker 0, Worker 1, Worker 1, Worker 0, Worker 0,
      MainThread]"

section \<open>Properties of the filename derivation\<close>

subsection \<open>The library functions and the specification's wording\<close>

lemma spec_runs_Nil_iff: "spec_runs P xs = [] \<longleftrightarrow> xs = []"
  by (cases xs) (auto split: list.splits)

lemma spec_runs_hd: "spec_runs P (x # xs) = r # rs \<Longrightarrow> r \<noteq> [] \<and> hd r = x"
  by (auto split: list.splits if_splits)

lemma concat_spec_runs: "concat (spec_runs P xs) = xs"
  by (induction xs) (auto split: list.splits)

lemma spec_replace_runs_alnum:
  "is_alnum c \<Longrightarrow> spec_replace_runs (c # cs) = c # spec_replace_runs cs"
proof (cases "spec_runs is_alnum cs")
  case Nil
  then have "cs = []" by (simp add: spec_runs_Nil_iff)
  then show "is_alnum c \<Longrightarrow> ?thesis" by (simp add: spec_replace_runs_def)
next
  case (Cons r rs)
  then show "is_alnum c \<Longrightarrow> ?thesis" by (simp add: spec_replace_runs_def)
qed

lemma spec_runs_Cons_Cons:
  assumes "spec_runs P (d # ds) = r # rs"
  shows "spec_runs P (c # d # ds) = (if P c = P d then (c # r) # rs else [c] # r # rs)"
proof -
  have "hd r = d" using spec_runs_hd [OF assms] by simp
  moreover have "spec_runs P (c # d # ds) =
      (case spec_runs P (d # ds) of
         [] \<Rightarrow> [[c]]
       | r # rs \<Rightarrow> if P c = P (hd r) then (c # r) # rs else [c] # r # rs)"
    by (rule spec_runs.simps(2))
  ultimately show ?thesis by (simp only: assms list.case)
qed

lemma spec_replace_runs_other:
  "\<not> is_alnum c \<Longrightarrow>
   spec_replace_runs (c # cs) = CHR ''-'' # spec_replace_runs (dropWhile (\<lambda>d. \<not> is_alnum d) cs)"
proof (induction cs arbitrary: c)
  case Nil
  then show ?case by (simp add: spec_replace_runs_def)
next
  case (Cons d ds)
  have "spec_runs is_alnum (d # ds) \<noteq> []"
    using spec_runs_Nil_iff [of is_alnum "d # ds"] by simp
  then obtain r rs where rs: "spec_runs is_alnum (d # ds) = r # rs"
    by (meson neq_Nil_conv)
  have hd: "hd r = d" using spec_runs_hd [OF rs] by simp
  note step = spec_runs_Cons_Cons [OF rs, of c]
  show ?case
  proof (cases "is_alnum d")
    case True
    have "spec_replace_runs (c # d # ds) = CHR ''-'' # spec_replace_runs (d # ds)"
      unfolding spec_replace_runs_def step rs using Cons.prems True by simp
    with True show ?thesis by simp
  next
    case False
    have "spec_replace_runs (c # d # ds) = spec_replace_runs (d # ds)"
      unfolding spec_replace_runs_def step rs using Cons.prems False hd by simp
    with Cons.IH [OF False] False show ?thesis by simp
  qed
qed

lemma sanitize_is_replace_runs: "sanitize_ReplaceAllString s ''-'' = spec_replace_runs s"
proof (induction s "''-''" rule: sanitize_ReplaceAllString.induct)
  case 1
  show ?case by (simp add: spec_replace_runs_def)
next
  case (2 c cs)
  then show ?case
    by (simp add: spec_replace_runs_alnum spec_replace_runs_other)
qed

lemma clean_segment_is_spec_clean: "clean_segment seg = spec_clean seg"
  by (simp add: clean_segment_def spec_clean_def strings_Trim_def spec_trim_hyphens_def
      strings_ToLower_def sanitize_is_replace_runs)

lemma clean_loop_filter_map:
  "clean_loop parts cleaned = cleaned @ filter (\<lambda>s. s \<noteq> []) (map clean_segment parts)"
  by (induction parts arbitrary: cleaned) (auto simp: Let_def)

lemma strings_Join_is_spec_join: "strings_Join ss ''-'' = spec_join ss"
proof (induction ss "''-''" rule: strings_Join.induct)
  case (3 e v va)
  then show ?case by simp
qed simp_all

lemma strings_HasSuffix_iff_suffix: "strings_HasSuffix s x \<longleftrightarrow> suffix x s"
proof
  assume "strings_HasSuffix s x"
  then have "s = take (length s - length x) s @ x"
    unfolding strings_HasSuffix_def by (metis append_take_drop_id)
  then show "suffix x s" by (metis suffixI)
next
  assume "suffix x s"
  then obtain p where "s = p @ x" by (auto simp: suffix_def)
  then show "strings_HasSuffix s x" by (simp add: strings_HasSuffix_def)
qed

lemma strings_HasPrefix_iff_prefix: "strings_HasPrefix s p \<longleftrightarrow> prefix p s"
proof
  assume "strings_HasPrefix s p"
  then have "s = p @ drop (length p) s"
    unfolding strings_HasPrefix_def by (metis append_take_drop_id)
  then show "prefix p s" by (metis prefixI)
next
  assume "prefix p s"
  then obtain r where "s = p @ r" by (auto simp: prefix_def)
  then show "strings_HasPrefix s p" by (simp add: strings_HasPrefix_def)
qed

lemma split_from_not_Nil: "split_from sep piece s \<noteq> []"
  by (induction sep piece s rule: split_from.induct) auto

lemma strings_Split_not_Nil: "sep \<noteq> [] \<Longrightarrow> strings_Split s sep \<noteq> []"
  by (simp add: strings_Split_def split_from_not_Nil)

lemma is_alnum_hyphen: "\<not> is_alnum (CHR ''-'')"
  by (simp add: is_alnum_def upper_letters_def lower_letters_def digits_def)

lemma is_alnum_dot: "\<not> is_alnum (CHR ''.'')"
  by (simp add: is_alnum_def upper_letters_def lower_letters_def digits_def)

lemma to_lower_cases: "to_lower c = c \<or> to_lower c \<in> set lower_letters"
  by (simp add: to_lower_def upper_letters_def lower_letters_def)

lemma is_alnum_to_lower: "is_alnum (to_lower c) = is_alnum c"
  by (simp add: to_lower_def is_alnum_def upper_letters_def lower_letters_def digits_def)

lemma filter_dropWhile_other:
  "(\<And>x. Q x \<Longrightarrow> \<not> P x) \<Longrightarrow> filter P (dropWhile Q xs) = filter P xs"
  by (induction xs) auto

lemma filter_alnum_sanitize:
  "filter is_alnum (sanitize_ReplaceAllString s ''-'') = filter is_alnum s"
proof (induction s "''-''" rule: sanitize_ReplaceAllString.induct)
  case 1
  show ?case by simp
next
  case (2 c cs)
  then show ?case by (simp add: is_alnum_hyphen filter_dropWhile_other)
qed

lemma filter_alnum_Trim:
  "filter is_alnum (strings_Trim s ''-'') = filter is_alnum s"
proof -
  have drop: "filter is_alnum (dropWhile (\<lambda>c. c \<in> set ''-'') xs) = filter is_alnum xs" for xs
    by (rule filter_dropWhile_other) (simp add: is_alnum_hyphen)
  have "filter is_alnum (strings_Trim s ''-'') =
        rev (filter is_alnum (dropWhile (\<lambda>c. c \<in> set ''-'') (rev (dropWhile (\<lambda>c. c \<in> set ''-'') s))))"
    unfolding strings_Trim_def by (simp only: rev_filter)
  also have "\<dots> = rev (filter is_alnum (rev (dropWhile (\<lambda>c. c \<in> set ''-'') s)))"
    by (simp only: drop)
  also have "\<dots> = filter is_alnum (dropWhile (\<lambda>c. c \<in> set ''-'') s)"
    by (simp only: rev_filter rev_rev_ident)
  also have "\<dots> = filter is_alnum s" by (simp only: drop)
  finally show ?thesis .
qed

lemma filter_alnum_clean_segment:
  "filter is_alnum (clean_segment seg) = map to_lower (filter is_alnum seg)"
proof -
  have "filter is_alnum (map to_lower xs) = map to_lower (filter is_alnum xs)" for xs
    by (induction xs) (simp_all add: is_alnum_to_lower)
  then show ?thesis
    by (simp add: clean_segment_def strings_ToLower_def filter_alnum_Trim filter_alnum_sanitize)
qed

lemma set_sanitize:
  "set (sanitize_ReplaceAllString s ''-'') \<subseteq> insert (CHR ''-'') {c. is_alnum c}"
proof (induction s "''-''" rule: sanitize_ReplaceAllString.induct)
  case 1
  show ?case by simp
next
  case (2 c cs)
  then show ?case by auto
qed

lemma set_strings_Trim: "set (strings_Trim s cutset) \<subseteq> set s"
proof -
  have "set (dropWhile P xs) \<subseteq> set xs" for P and xs :: string
    by (auto dest: set_dropWhileD)
  then show ?thesis unfolding strings_Trim_def
    by (metis set_rev subset_trans)
qed

lemma strings_Trim_all: "set s \<subseteq> set cutset \<Longrightarrow> strings_Trim s cutset = []"
proof -
  assume "set s \<subseteq> set cutset"
  then show ?thesis
    by (auto simp: strings_Trim_def dest: set_dropWhileD)
qed

lemma set_sanitize_other:
  "\<forall>c \<in> set s. \<not> is_alnum c \<Longrightarrow> set (sanitize_ReplaceAllString s ''-'') \<subseteq> {CHR ''-''}"
proof -
  assume no: "\<forall>c \<in> set s. \<not> is_alnum c"
  have "filter is_alnum (sanitize_ReplaceAllString s ''-'') = []"
    using no by (simp add: filter_alnum_sanitize)
  then have "\<forall>c \<in> set (sanitize_ReplaceAllString s ''-''). \<not> is_alnum c"
    by (simp add: filter_empty_conv)
  with set_sanitize [of s] show ?thesis by auto
qed

lemma clean_segment_Nil_iff: "clean_segment seg = [] \<longleftrightarrow> (\<forall>c \<in> set seg. \<not> is_alnum c)"
proof
  assume "clean_segment seg = []"
  then have "map to_lower (filter is_alnum seg) = []"
    using filter_alnum_clean_segment [of seg] by simp
  then show "\<forall>c \<in> set seg. \<not> is_alnum c" by (simp add: filter_empty_conv)
next
  assume "\<forall>c \<in> set seg. \<not> is_alnum c"
  then have "set (sanitize_ReplaceAllString seg ''-'') \<subseteq> set ''-''"
    using set_sanitize_other by simp
  then have "strings_Trim (sanitize_ReplaceAllString seg ''-'') ''-'' = []"
    by (rule strings_Trim_all)
  then show "clean_segment seg = []"
    by (simp add: clean_segment_def strings_ToLower_def)
qed

lemma no_dot_clean_segment: "CHR ''.'' \<notin> set (clean_segment seg)"
proof
  assume "CHR ''.'' \<in> set (clean_segment seg)"
  then obtain c where c: "c \<in> set (strings_Trim (sanitize_ReplaceAllString seg ''-'') ''-'')"
    and low: "to_lower c = CHR ''.''"
    by (auto simp: clean_segment_def strings_ToLower_def)
  from c have "c \<in> insert (CHR ''-'') {c. is_alnum c}"
    using set_strings_Trim set_sanitize by blast
  then have "c = CHR ''-'' \<or> is_alnum c" by simp
  moreover have "is_alnum c \<Longrightarrow> False"
    using low is_alnum_to_lower [of c] is_alnum_dot by simp
  moreover have "c = CHR ''-'' \<Longrightarrow> False"
    using low by (simp add: to_lower_def upper_letters_def lower_letters_def)
  ultimately show False by blast
qed

lemma set_spec_join: "set (spec_join ss) \<subseteq> insert (CHR ''-'') (\<Union> (set ` set ss))"
  by (cases ss) auto

lemma no_dot_joined:
  "CHR ''.'' \<notin> set (spec_join (filter (\<lambda>s. s \<noteq> []) (map clean_segment parts)))"
proof -
  have "\<Union> (set ` set (filter (\<lambda>s. s \<noteq> []) (map clean_segment parts))) \<subseteq> - {CHR ''.''}"
    using no_dot_clean_segment by auto
  with set_spec_join [of "filter (\<lambda>s. s \<noteq> []) (map clean_segment parts)"] show ?thesis
    by auto
qed

lemma suffix_pdf_has_dot: "suffix ''.pdf'' s \<Longrightarrow> CHR ''.'' \<in> set s"
  by (auto simp: suffix_def)

lemma joined_not_pdf:
  "\<not> suffix ''.pdf'' (spec_join (filter (\<lambda>s. s \<noteq> []) (map clean_segment parts)))"
  using no_dot_joined suffix_pdf_has_dot by blast

lemma createFileNameFromURL_Inr:
  assumes "url_Parse rawURL = Inr u"
  shows "createFileNameFromURL url_Parse rawURL =
         spec_join (filter (\<lambda>s. s \<noteq> []) (map clean_segment (url_parts u))) @ ''.pdf''"
proof -
  have split: "strings_Split p ''~~'' \<noteq> []" for p
    by (rule strings_Split_not_Nil) simp
  show ?thesis
    using assms split joined_not_pdf
    by (simp add: createFileNameFromURL_def url_parts_def Let_def clean_loop_filter_map
        strings_Join_is_spec_join strings_HasSuffix_iff_suffix)
qed

lemma spec_filename_eq:
  "spec_filename segs = spec_join (filter (\<lambda>s. s \<noteq> []) (map spec_clean segs)) @ ''.pdf''"
proof -
  have "spec_clean = clean_segment"
    by (rule ext) (simp add: clean_segment_is_spec_clean)
  then show ?thesis
    using joined_not_pdf [of segs] by (simp add: spec_filename_def Let_def)
qed

lemma spec_clean_is_clean_segment: "spec_clean = clean_segment"
  by (rule ext) (simp add: clean_segment_is_spec_clean)

subsection \<open>The composite product parameter\<close>

lemma strings_Join_Cons:
  "es \<noteq> [] \<Longrightarrow> strings_Join (e # es) sep = e @ sep @ strings_Join es sep"
  by (cases es) simp_all

lemma split_from_join:
  "sep \<noteq> [] \<Longrightarrow> strings_Join (split_from sep piece s) sep = piece @ s"
proof (induction sep piece s rule: split_from.induct)
  case (1 sep piece)
  show ?case by simp
next
  case (2 sep piece c cs)
  show ?case
  proof (cases "strings_HasPrefix (c # cs) sep")
    case True
    then have eq: "c # cs = sep @ drop (length sep) (c # cs)"
      unfolding strings_HasPrefix_def by (metis append_take_drop_id)
    from 2(3) obtain d ds where sep: "sep = d # ds" by (cases sep) auto
    have dr: "drop (length sep - 1) cs = drop (length sep) (c # cs)"
      by (simp add: sep)
    have "strings_Join (split_from sep piece (c # cs)) sep
          = piece @ sep @ strings_Join (split_from sep [] (drop (length sep - 1) cs)) sep"
      using True by (simp add: strings_Join_Cons split_from_not_Nil)
    also have "\<dots> = piece @ sep @ drop (length sep - 1) cs"
      using 2(1) [OF True] 2(3) by simp
    also have "\<dots> = piece @ (c # cs)"
      using eq dr by simp
    finally show ?thesis .
  next
    case False
    then show ?thesis using 2(2) [OF False] 2(3) by simp
  qed
qed

lemma strings_Split_join:
  "sep \<noteq> [] \<Longrightarrow> strings_Join (strings_Split s sep) sep = s"
  by (simp add: strings_Split_def split_from_join)

text \<open>
  Claim C1. When the URL parses and its \<^verbatim>\<open>prd\<close> parameter is not empty, the filename
  is the one the specification describes for the segments of the parameter between the
  \<^verbatim>\<open>~~\<close> delimiters, in their order: every maximal run of characters outside
  \<^verbatim>\<open>[A-Za-z0-9]\<close> replaced by one hyphen, hyphens trimmed at both ends, lowercased,
  empty results dropped, the rest joined with \<^verbatim>\<open>-\<close>, and \<^verbatim>\<open>.pdf\<close> appended unless
  the join ends in it. The segments joined with \<^verbatim>\<open>~~\<close> give the parameter back. The
  document link of the specification's scenario derives
  \<^verbatim>\<open>hrls00001-3-pdf-mtr-aghs-en.pdf\<close>.
\<close>

theorem createFileNameFromURL_prd_segments:
  "(\<forall>url_Parse rawURL u.
      url_Parse rawURL = Inr u \<and> Values_Get (Query u) ''prd'' \<noteq> [] \<longrightarrow>
        createFileNameFromURL url_Parse rawURL =
          spec_filename (strings_Split (Values_Get (Query u) ''prd'') ''~~'')
        \<and> strings_Join (strings_Split (Values_Get (Query u) ''prd'') ''~~'') ''~~'' =
            Values_Get (Query u) ''prd'')
   \<and> createFileNameFromURL sample_url_Parse
        ''https://x.thewercs.com/DirectDocumentDownloader/Document?prd=HRLS00001-3~~PDF~~MTR~~AGHS~~EN''
      = ''hrls00001-3-pdf-mtr-aghs-en.pdf''"
proof (intro conjI allI impI)
  fix url_Parse :: "string \<Rightarrow> error + URL" and rawURL and u :: URL
  assume h: "url_Parse rawURL = Inr u \<and> Values_Get (Query u) ''prd'' \<noteq> []"
  then have "url_parts u = strings_Split (Values_Get (Query u) ''prd'') ''~~''"
    by (simp add: url_parts_def)
  with h show "createFileNameFromURL url_Parse rawURL =
      spec_filename (strings_Split (Values_Get (Query u) ''prd'') ''~~'')"
    by (simp add: createFileNameFromURL_Inr spec_filename_eq spec_clean_is_clean_segment)
  show "strings_Join (strings_Split (Values_Get (Query u) ''prd'') ''~~'') ''~~'' =
      Values_Get (Query u) ''prd''"
    by (rule strings_Split_join) simp
next
  show "createFileNameFromURL sample_url_Parse
        ''https://x.thewercs.com/DirectDocumentDownloader/Document?prd=HRLS00001-3~~PDF~~MTR~~AGHS~~EN''
      = ''hrls00001-3-pdf-mtr-aghs-en.pdf''"
    by code_simp
qed

text \<open>The general part of C1 used at the scenario's URL.\<close>

theorem createFileNameFromURL_prd_segments_witness:
  "sample_url_Parse ''https://x.thewercs.com/DirectDocumentDownloader/Document?prd=HRLS00001-3~~PDF~~MTR~~AGHS~~EN''
     = Inr \<lparr>Path = ''/DirectDocumentDownloader/Document'',
             Query = [(''prd'', ''HRLS00001-3~~PDF~~MTR~~AGHS~~EN'')]\<rparr>
   \<and> Values_Get [(''prd'', ''HRLS00001-3~~PDF~~MTR~~AGHS~~EN'')] ''prd'' \<noteq> []
   \<and> spec_filename (strings_Split ''HRLS00001-3~~PDF~~MTR~~AGHS~~EN'' ''~~'')
       = ''hrls00001-3-pdf-mtr-aghs-en.pdf''"
proof -
  let ?raw = "''https://x.thewercs.com/DirectDocumentDownloader/Document?prd=HRLS00001-3~~PDF~~MTR~~AGHS~~EN''"
  let ?u = "\<lparr>Path = ''/DirectDocumentDownloader/Document'',
             Query = [(''prd'', ''HRLS00001-3~~PDF~~MTR~~AGHS~~EN'')]\<rparr>"
  have p: "sample_url_Parse ?raw = Inr ?u" by (simp add: sample_url_Parse_def)
  have q: "Values_Get (Query ?u) ''prd'' = ''HRLS00001-3~~PDF~~MTR~~AGHS~~EN''"
    by (simp add: Values_Get_def)
  have n: "Values_Get (Query ?u) ''prd'' \<noteq> []" by (simp add: Values_Get_def)
  from createFileNameFromURL_prd_segments
  have gen: "createFileNameFromURL sample_url_Parse ?raw =
      spec_filename (strings_Split (Values_Get (Query ?u) ''prd'') ''~~'')"
    and val: "createFileNameFromURL sample_url_Parse ?raw = ''hrls00001-3-pdf-mtr-aghs-en.pdf''"
    using p n by blast+
  from gen val have "spec_filename (strings_Split (Values_Get (Query ?u) ''prd'') ''~~'')
      = ''hrls00001-3-pdf-mtr-aghs-en.pdf''" by simp
  with p n q show ?thesis by simp
qed

subsection \<open>The fallback to the path\<close>

text \<open>
  Claim C2. When the URL parses and its \<^verbatim>\<open>prd\<close> parameter is absent or empty, the
  filename is the last element of the path (\<^verbatim>\<open>path.Base\<close>) without a trailing
  \<^verbatim>\<open>.pdf\<close>, cleaned as a single segment by the same rules, followed by \<^verbatim>\<open>.pdf\<close>.
\<close>

theorem createFileNameFromURL_path_fallback:
  assumes "url_Parse rawURL = Inr u" and "Values_Get (Query u) ''prd'' = []"
  shows "createFileNameFromURL url_Parse rawURL =
           spec_clean (strings_TrimSuffix (path_Base (Path u)) ''.pdf'') @ ''.pdf''"
proof -
  have "url_parts u = [strings_TrimSuffix (path_Base (Path u)) ''.pdf'']"
    using assms(2) by (simp add: url_parts_def)
  then show ?thesis
    using assms(1) by (simp add: createFileNameFromURL_Inr spec_clean_is_clean_segment)
qed

text \<open>C2 at a direct link to a PDF whose name has a space and an underscore.\<close>

theorem createFileNameFromURL_path_fallback_witness:
  "sample_url_Parse ''https://www.bio-rad.com/sites/default/files/webroot/web/pdf/TS_Staphylocoagulase%20Broth.pdf''
     = Inr \<lparr>Path = ''/sites/default/files/webroot/web/pdf/TS_Staphylocoagulase Broth.pdf'', Query = []\<rparr>
   \<and> Values_Get [] ''prd'' = []
   \<and> createFileNameFromURL sample_url_Parse
        ''https://www.bio-rad.com/sites/default/files/webroot/web/pdf/TS_Staphylocoagulase%20Broth.pdf''
      = ''ts-staphylocoagulase-broth.pdf''"
proof -
  let ?raw = "''https://www.bio-rad.com/sites/default/files/webroot/web/pdf/TS_Staphylocoagulase%20Broth.pdf''"
  let ?u = "\<lparr>Path = ''/sites/default/files/webroot/web/pdf/TS_Staphylocoagulase Broth.pdf'', Query = []\<rparr>"
  have p: "sample_url_Parse ?raw = Inr ?u" by (simp add: sample_url_Parse_def)
  have q: "Values_Get (Query ?u) ''prd'' = []" by (simp add: Values_Get_def)
  have c: "spec_clean (strings_TrimSuffix (path_Base (Path ?u)) ''.pdf'') @ ''.pdf''
      = ''ts-staphylocoagulase-broth.pdf''"
    by code_simp
  have "createFileNameFromURL sample_url_Parse ?raw =
      spec_clean (strings_TrimSuffix (path_Base (Path ?u)) ''.pdf'') @ ''.pdf''"
    by (rule createFileNameFromURL_path_fallback [of sample_url_Parse ?raw ?u, OF p q])
  with c p q show ?thesis by simp
qed

subsection \<open>Unparseable input\<close>

text \<open>
  Claim C3. \<^verbatim>\<open>createFileNameFromURL\<close> returns a filename for every input and every
  behaviour of the parser (the function has no failing operation: the model is a total
  function into strings), the filename always ends in \<^verbatim>\<open>.pdf\<close>, and it is
  \<^verbatim>\<open>invalid-url.pdf\<close> whenever \<^verbatim>\<open>url.Parse\<close> reports an error.
\<close>

theorem createFileNameFromURL_total:
  "suffix ''.pdf'' (createFileNameFromURL url_Parse rawURL)
   \<and> (\<forall>err. url_Parse rawURL = Inl err \<longrightarrow>
         createFileNameFromURL url_Parse rawURL = ''invalid-url.pdf'')"
proof
  show "suffix ''.pdf'' (createFileNameFromURL url_Parse rawURL)"
  proof (cases "url_Parse rawURL")
    case (Inl err)
    then have "createFileNameFromURL url_Parse rawURL = ''invalid-url'' @ ''.pdf''"
      by (simp add: createFileNameFromURL_def)
    then show ?thesis by (simp only: suffixI)
  next
    case (Inr u)
    then show ?thesis by (simp only: createFileNameFromURL_Inr suffixI)
  qed
  show "\<forall>err. url_Parse rawURL = Inl err \<longrightarrow>
         createFileNameFromURL url_Parse rawURL = ''invalid-url.pdf''"
    by (simp add: createFileNameFromURL_def)
qed

text \<open>C3 at a string that \<^verbatim>\<open>url.Parse\<close> rejects (no scheme before the colon).\<close>

theorem createFileNameFromURL_total_witness:
  "sample_url_Parse ''://'' = Inl UrlParseError
   \<and> createFileNameFromURL sample_url_Parse ''://'' = ''invalid-url.pdf''"
proof
  show p: "sample_url_Parse ''://'' = Inl UrlParseError"
    by (simp add: sample_url_Parse_def)
  from createFileNameFromURL_total [of sample_url_Parse "''://''"] p
  show "createFileNameFromURL sample_url_Parse ''://'' = ''invalid-url.pdf''"
    by blast
qed

subsection \<open>Segments of punctuation and the empty path\<close>

text \<open>
  Claim C4 as stated fails: a URL that parses, has no \<^verbatim>\<open>prd\<close> parameter and an
  empty path has the base \<^verbatim>\<open>.\<close>, which is dropped as punctuation, and the filename
  is the bare \<^verbatim>\<open>.pdf\<close>, with nothing before the extension.
\<close>

theorem createFileNameFromURL_empty_base_counterexample:
  "sample_url_Parse ''https://www.bio-rad.com'' = Inr \<lparr>Path = [], Query = []\<rparr>
   \<and> Values_Get [] ''prd'' = []
   \<and> path_Base [] = ''.''
   \<and> createFileNameFromURL sample_url_Parse ''https://www.bio-rad.com'' = ''.pdf''"
  by code_simp

lemma clean_loop_drops:
  assumes "\<forall>c \<in> set seg. \<not> is_alnum c"
  shows "clean_loop (before @ seg # after) cleaned = clean_loop (before @ after) cleaned"
proof -
  have "clean_segment seg = []" using assms by (simp add: clean_segment_Nil_iff)
  then show ?thesis by (simp add: clean_loop_filter_map)
qed

text \<open>
  Claim C4, amended. A segment without a letter or digit is dropped by the loop of step
  3 and contributes nothing to the name. For a URL that parses and has no \<^verbatim>\<open>prd\<close>
  parameter, the filename has a non-empty token before \<^verbatim>\<open>.pdf\<close> exactly when the
  stripped base of the path has a letter or digit; otherwise (the empty path, whose base
  is \<^verbatim>\<open>.\<close>, among them) it is the bare \<^verbatim>\<open>.pdf\<close>.
\<close>

theorem createFileNameFromURL_punctuation:
  "(\<forall>seg before after cleaned.
      (\<forall>c \<in> set seg. \<not> is_alnum c) \<longrightarrow>
        clean_loop (before @ seg # after) cleaned = clean_loop (before @ after) cleaned)
   \<and> (\<forall>url_Parse rawURL u.
        url_Parse rawURL = Inr u \<and> Values_Get (Query u) ''prd'' = [] \<longrightarrow>
          (if \<exists>c \<in> set (strings_TrimSuffix (path_Base (Path u)) ''.pdf''). is_alnum c
           then \<exists>token. token \<noteq> [] \<and> createFileNameFromURL url_Parse rawURL = token @ ''.pdf''
           else createFileNameFromURL url_Parse rawURL = ''.pdf''))"
proof (intro conjI allI impI)
  fix seg before after :: string and cleaned
  show "\<forall>c \<in> set seg. \<not> is_alnum c \<Longrightarrow>
      clean_loop (before @ seg # after) cleaned = clean_loop (before @ after) cleaned" for before after
    by (rule clean_loop_drops)
next
  fix url_Parse :: "string \<Rightarrow> error + URL" and rawURL and u :: URL
  assume h: "url_Parse rawURL = Inr u \<and> Values_Get (Query u) ''prd'' = []"
  let ?base = "strings_TrimSuffix (path_Base (Path u)) ''.pdf''"
  have parts: "url_parts u = [?base]" using h by (simp add: url_parts_def)
  have name: "createFileNameFromURL url_Parse rawURL = clean_segment ?base @ ''.pdf''"
    using h parts by (simp add: createFileNameFromURL_Inr)
  show "if \<exists>c \<in> set ?base. is_alnum c
        then \<exists>token. token \<noteq> [] \<and> createFileNameFromURL url_Parse rawURL = token @ ''.pdf''
        else createFileNameFromURL url_Parse rawURL = ''.pdf''"
  proof (cases "\<exists>c \<in> set ?base. is_alnum c")
    case True
    then have "clean_segment ?base \<noteq> []" by (simp add: clean_segment_Nil_iff)
    with name True show ?thesis by auto
  next
    case False
    then have "clean_segment ?base = []" by (simp add: clean_segment_Nil_iff)
    with name False show ?thesis by simp
  qed
qed

text \<open>The amended C4 at a segment of punctuation and at the URL with the empty path.\<close>

theorem createFileNameFromURL_punctuation_witness:
  "filter is_alnum ''~_~'' = []
   \<and> clean_loop ([''HRLS''] @ ''~_~'' # [''EN'']) [] = clean_loop ([''HRLS''] @ [''EN'']) []
   \<and> sample_url_Parse ''https://www.bio-rad.com'' = Inr \<lparr>Path = [], Query = []\<rparr>
   \<and> Values_Get [] ''prd'' = []
   \<and> createFileNameFromURL sample_url_Parse ''https://www.bio-rad.com'' = ''.pdf''"
proof -
  let ?u = "\<lparr>Path = [], Query = []\<rparr> :: URL"
  have a: "\<forall>c \<in> set ''~_~''. \<not> is_alnum c"
    by (simp add: is_alnum_def upper_letters_def lower_letters_def digits_def)
  have p: "sample_url_Parse ''https://www.bio-rad.com'' = Inr ?u"
    by (simp add: sample_url_Parse_def)
  have q: "Values_Get (Query ?u) ''prd'' = []" by (simp add: Values_Get_def)
  have b: "\<not> (\<exists>c \<in> set (strings_TrimSuffix (path_Base (Path ?u)) ''.pdf''). is_alnum c)"
    by (simp add: path_Base_def strings_TrimSuffix_def strings_HasSuffix_def is_alnum_dot)
  from createFileNameFromURL_punctuation
  have drop: "clean_loop ([''HRLS''] @ ''~_~'' # [''EN'']) [] = clean_loop ([''HRLS''] @ [''EN'']) []"
    using a by blast
  from createFileNameFromURL_punctuation
  have "if \<exists>c \<in> set (strings_TrimSuffix (path_Base (Path ?u)) ''.pdf''). is_alnum c
        then \<exists>token. token \<noteq> [] \<and>
               createFileNameFromURL sample_url_Parse ''https://www.bio-rad.com'' = token @ ''.pdf''
        else createFileNameFromURL sample_url_Parse ''https://www.bio-rad.com'' = ''.pdf''"
    using p q by blast
  with b have "createFileNameFromURL sample_url_Parse ''https://www.bio-rad.com'' = ''.pdf''"
    by (simp only: if_False)
  moreover have "filter is_alnum ''~_~'' = []"
    using a by simp
  ultimately show ?thesis using drop p q by simp
qed

section \<open>Properties of the link extraction\<close>

lemma strings_Contains_iff_sublist: "strings_Contains s sub \<longleftrightarrow> sublist sub s"
proof (induction s)
  case Nil
  show ?case by simp
next
  case (Cons c cs)
  then show ?case
    by (simp add: sublist_Cons_right strings_HasPrefix_iff_prefix)
qed

lemma isAllowed_loop_iff:
  "isAllowed_loop url domains \<longleftrightarrow> (\<exists>domain \<in> set domains. strings_Contains url domain)"
  by (induction domains) auto

lemma isAllowed_iff:
  "isAllowed url \<longleftrightarrow>
     sublist ''bio-rad-sds.thewercs.com/DirectDocumentDownloader/Document'' url
     \<or> sublist ''bio-rad.com/sites/default/files/webroot/web/pdf'' url"
  by (simp add: isAllowed_def isAllowed_loop_iff allowedDomains_def strings_Contains_iff_sublist)

lemma foldl_keeps:
  assumes step: "\<And>acc x. list_all P acc \<Longrightarrow> list_all P (f acc x)"
  shows "list_all P acc \<Longrightarrow> list_all P (foldl f acc xs)"
  by (induction xs arbitrary: acc) (simp_all add: step)

lemma part_step_keeps:
  "list_all allowed_link urls \<Longrightarrow> list_all allowed_link (part_step urls part)"
  by (auto simp: part_step_def Let_def allowed_link_def strings_HasPrefix_iff_prefix prefix_def)

lemma hidden_input_step_keeps:
  "list_all allowed_link urls \<Longrightarrow> list_all allowed_link (hidden_input_step urls s)"
  by (auto simp: hidden_input_step_def split: option.splits
      intro: foldl_keeps part_step_keeps)

lemma option_step_keeps:
  "list_all allowed_link urls \<Longrightarrow> list_all allowed_link (option_step urls s)"
  by (auto simp: option_step_def allowed_link_def strings_HasPrefix_iff_prefix split: option.splits)

lemma anchor_step_keeps:
  "list_all allowed_link urls \<Longrightarrow> list_all allowed_link (anchor_step urls s)"
  by (auto simp: anchor_step_def allowed_link_def strings_HasPrefix_iff_prefix split: option.splits)

lemma extractLinksFromHTML_keeps:
  "list_all allowed_link (extractLinksFromHTML NewDocument htmlContent)"
proof (cases "NewDocument htmlContent")
  case (Inl err)
  then show ?thesis by (simp add: extractLinksFromHTML_def)
next
  case (Inr doc)
  have "list_all allowed_link (foldl hidden_input_step [] (doc_Find sel_hidden_input doc))"
    by (rule foldl_keeps) (simp_all add: hidden_input_step_keeps)
  then have "list_all allowed_link
      (foldl option_step (foldl hidden_input_step [] (doc_Find sel_hidden_input doc))
         (doc_Find (sel_tag ''option'') doc))"
    by (rule foldl_keeps [rotated]) (simp add: option_step_keeps)
  then have "list_all allowed_link
      (foldl anchor_step
         (foldl option_step (foldl hidden_input_step [] (doc_Find sel_hidden_input doc))
            (doc_Find (sel_tag ''option'') doc))
         (doc_Find (sel_tag ''a'') doc))"
    by (rule foldl_keeps [rotated]) (simp add: anchor_step_keeps)
  with Inr show ?thesis by (simp add: extractLinksFromHTML_def Let_def)
qed

text \<open>
  Claim C5. Whatever the markup and whatever document the parser builds from it, every
  string \<^verbatim>\<open>extractLinksFromHTML\<close> returns starts with \<^verbatim>\<open>http\<close> and contains one of
  the two allow-listed substrings. The result collects the three sources, so no source
  lets a URL without an allow-listed substring through.
\<close>

theorem extractLinksFromHTML_allow_listed:
  assumes "u \<in> set (extractLinksFromHTML NewDocument htmlContent)"
  shows "prefix ''http'' u
         \<and> (sublist ''bio-rad-sds.thewercs.com/DirectDocumentDownloader/Document'' u
            \<or> sublist ''bio-rad.com/sites/default/files/webroot/web/pdf'' u)"
proof -
  have "allowed_link u"
    using assms extractLinksFromHTML_keeps [of NewDocument htmlContent]
    by (simp add: list_all_iff)
  then show ?thesis by (simp add: allowed_link_def isAllowed_iff)
qed

lemma mixed_links:
  "extractLinksFromHTML sample_NewDocument mixed_markup =
     [''https://bio-rad-sds.thewercs.com/DirectDocumentDownloader/Document?prd=A~~PDF'',
      ''https://www.bio-rad.com/sites/default/files/webroot/web/pdf/a.pdf'',
      ''https://www.bio-rad.com/sites/default/files/webroot/web/pdf/c.pdf'']"
  by code_simp

text \<open>C5 on the page with allowed and other candidates in all three sources: the three
  allowed ones are returned, and the theorem applies to each.\<close>

theorem extractLinksFromHTML_allow_listed_witness:
  "extractLinksFromHTML sample_NewDocument mixed_markup =
     [''https://bio-rad-sds.thewercs.com/DirectDocumentDownloader/Document?prd=A~~PDF'',
      ''https://www.bio-rad.com/sites/default/files/webroot/web/pdf/a.pdf'',
      ''https://www.bio-rad.com/sites/default/files/webroot/web/pdf/c.pdf'']
   \<and> prefix ''http'' ''https://www.bio-rad.com/sites/default/files/webroot/web/pdf/c.pdf''
   \<and> (sublist ''bio-rad-sds.thewercs.com/DirectDocumentDownloader/Document''
          ''https://www.bio-rad.com/sites/default/files/webroot/web/pdf/c.pdf''
        \<or> sublist ''bio-rad.com/sites/default/files/webroot/web/pdf''
          ''https://www.bio-rad.com/sites/default/files/webroot/web/pdf/c.pdf'')"
proof -
  have "''https://www.bio-rad.com/sites/default/files/webroot/web/pdf/c.pdf''
      \<in> set (extractLinksFromHTML sample_NewDocument mixed_markup)"
    by (simp add: mixed_links)
  from extractLinksFromHTML_allow_listed [OF this] mixed_links show ?thesis
    by (simp only: simp_thms)
qed

text \<open>
  Claim C6. The value of the scenario's hidden input splits on \<^verbatim>\<open>~https://\<close> into
  \<^verbatim>\<open>foo\<close>, which is no URL and is skipped, and the rest, which gets the scheme back
  and passes the allow-list. So when the document has that hidden input and no other
  candidate, exactly the one URL is returned, and so it is for the scenario's markup.
\<close>

theorem extractLinksFromHTML_hidden_input_scenario:
  "strings_Split ''foo~https://example.bio-rad.com/sites/default/files/webroot/web/pdf/X.pdf''
       ''~https://''
     = [''foo'', ''example.bio-rad.com/sites/default/files/webroot/web/pdf/X.pdf'']
   \<and> (\<forall>NewDocument htmlContent doc el.
         NewDocument htmlContent = Inr doc
         \<and> doc_Find sel_hidden_input doc = [el]
         \<and> node_Attr el ''value'' =
             Some ''foo~https://example.bio-rad.com/sites/default/files/webroot/web/pdf/X.pdf''
         \<and> doc_Find (sel_tag ''option'') doc = []
         \<and> doc_Find (sel_tag ''a'') doc = []
         \<longrightarrow> extractLinksFromHTML NewDocument htmlContent =
               [''https://example.bio-rad.com/sites/default/files/webroot/web/pdf/X.pdf''])
   \<and> extractLinksFromHTML sample_NewDocument scenario_markup =
       [''https://example.bio-rad.com/sites/default/files/webroot/web/pdf/X.pdf'']"
proof (intro conjI allI impI)
  show split: "strings_Split ''foo~https://example.bio-rad.com/sites/default/files/webroot/web/pdf/X.pdf''
       ''~https://''
     = [''foo'', ''example.bio-rad.com/sites/default/files/webroot/web/pdf/X.pdf'']"
    by code_simp
  have steps: "foldl part_step []
      [''foo'', ''example.bio-rad.com/sites/default/files/webroot/web/pdf/X.pdf'']
     = [''https://example.bio-rad.com/sites/default/files/webroot/web/pdf/X.pdf'']"
    by code_simp
  show "extractLinksFromHTML NewDocument htmlContent =
      [''https://example.bio-rad.com/sites/default/files/webroot/web/pdf/X.pdf'']"
    if h: "NewDocument htmlContent = Inr doc
         \<and> doc_Find sel_hidden_input doc = [el]
         \<and> node_Attr el ''value'' =
             Some ''foo~https://example.bio-rad.com/sites/default/files/webroot/web/pdf/X.pdf''
         \<and> doc_Find (sel_tag ''option'') doc = []
         \<and> doc_Find (sel_tag ''a'') doc = []"
    for NewDocument :: "string \<Rightarrow> error + document" and htmlContent doc el
    using h steps by (simp add: extractLinksFromHTML_def hidden_input_step_def split)
  show "extractLinksFromHTML sample_NewDocument scenario_markup =
       [''https://example.bio-rad.com/sites/default/files/webroot/web/pdf/X.pdf'']"
    by code_simp
qed

text \<open>The general part of C6 at the document the parser builds for the scenario.\<close>

theorem extractLinksFromHTML_hidden_input_scenario_witness:
  "sample_NewDocument scenario_markup = Inr scenario_document
   \<and> doc_Find sel_hidden_input scenario_document =
       [Element ''input''
          [(''type'', ''hidden''),
           (''value'', ''foo~https://example.bio-rad.com/sites/default/files/webroot/web/pdf/X.pdf'')]
          []]
   \<and> doc_Find (sel_tag ''option'') scenario_document = []
   \<and> doc_Find (sel_tag ''a'') scenario_document = []
   \<and> extractLinksFromHTML sample_NewDocument scenario_markup =
       [''https://example.bio-rad.com/sites/default/files/webroot/web/pdf/X.pdf'']"
proof -
  let ?el = "Element ''input''
          [(''type'', ''hidden''),
           (''value'', ''foo~https://example.bio-rad.com/sites/default/files/webroot/web/pdf/X.pdf'')]
          []"
  have p: "sample_NewDocument scenario_markup = Inr scenario_document"
    by (simp add: sample_NewDocument_def)
  have f: "doc_Find sel_hidden_input scenario_document = [?el]"
    by (simp add: doc_Find_def scenario_document_def)
  have a: "node_Attr ?el ''value'' =
      Some ''foo~https://example.bio-rad.com/sites/default/files/webroot/web/pdf/X.pdf''"
    by simp
  have o: "doc_Find (sel_tag ''option'') scenario_document = []"
    by (simp add: doc_Find_def scenario_document_def)
  have h: "doc_Find (sel_tag ''a'') scenario_document = []"
    by (simp add: doc_Find_def scenario_document_def)
  from extractLinksFromHTML_hidden_input_scenario
  have "extractLinksFromHTML sample_NewDocument scenario_markup =
       [''https://example.bio-rad.com/sites/default/files/webroot/web/pdf/X.pdf'']"
    using p f a o h by blast
  with p f o h show ?thesis by (simp only: simp_thms)
qed

text \<open>
  Claim C7. When the parser reports an error, \<^verbatim>\<open>extractLinksFromHTML\<close> returns the
  empty list: the result is a list in every case, and no error leaves the function.
\<close>

theorem extractLinksFromHTML_parse_failure:
  assumes "NewDocument htmlContent = Inl err"
  shows "extractLinksFromHTML NewDocument htmlContent = []"
  using assms by (simp add: extractLinksFromHTML_def)

text \<open>C7 at a parse that fails.\<close>

theorem extractLinksFromHTML_parse_failure_witness:
  "failing_NewDocument mixed_markup = Inl HtmlParseError
   \<and> extractLinksFromHTML failing_NewDocument mixed_markup = []"
proof
  show p: "failing_NewDocument mixed_markup = Inl HtmlParseError"
    by (simp add: failing_NewDocument_def)
  show "extractLinksFromHTML failing_NewDocument mixed_markup = []"
    by (rule extractLinksFromHTML_parse_failure [of failing_NewDocument mixed_markup, OF p])
qed

section \<open>Properties of the download step\<close>

lemma downloadPDFFile_exists:
  "fileExists w (filepath_Join dir name) \<Longrightarrow> downloadPDFFile srv url dir name w = (None, w)"
  by (simp add: downloadPDFFile_def)

lemma fetched_os_MkdirAll: "fetched (snd (os_MkdirAll dir w)) = fetched w"
  by (simp add: os_MkdirAll_def split: option.splits entry.splits)

lemma fetched_os_Create: "fetched (snd (os_Create name w)) = fetched w"
  by (simp add: os_Create_def split: option.splits entry.splits)

lemma fetched_io_Copy: "fetched (snd (io_Copy name resp w)) = fetched w"
  by (simp add: io_Copy_def Let_def)

lemma downloadPDFFile_fetches_once:
  assumes "\<not> fileExists w (filepath_Join dir name)"
  shows "fetched (snd (downloadPDFFile srv url dir name w)) = fetched w @ [url]"
  using assms
  by (simp add: downloadPDFFile_def http_Get_def Let_def case_prod_beta
      fetched_io_Copy fetched_os_Create fetched_os_MkdirAll
      split: sum.splits option.splits)

lemma downloadPDFFile_status:
  assumes "\<not> fileExists w (filepath_Join dir name)"
    and "srv (length (fetched w)) url = Inr resp"
    and "StatusCode resp \<noteq> 200"
  shows "downloadPDFFile srv url dir name w =
           (Some (StatusError (Status resp)), w\<lparr>fetched := fetched w @ [url]\<rparr>)"
  using assms by (simp add: downloadPDFFile_def http_Get_def)

lemma downloadPDFFile_fetch_error:
  assumes "\<not> fileExists w (filepath_Join dir name)"
    and "srv (length (fetched w)) url = Inl err"
  shows "downloadPDFFile srv url dir name w =
           (Some (FetchError url), w\<lparr>fetched := fetched w @ [url]\<rparr>)"
  using assms by (simp add: downloadPDFFile_def http_Get_def)

lemma fileExists_fetched: "fileExists (w\<lparr>fetched := l\<rparr>) p = fileExists w p"
  by (simp add: fileExists_def)

text \<open>
  Claim C8 as stated fails: with no file at the destination and a server that answers
  \<^verbatim>\<open>404\<close>, the first call creates nothing, the second call finds no file either, and the
  two calls fetch twice.
\<close>

theorem download_twice_refetch_counterexample:
  "fileExists empty_world (filepath_Join ''PDFs'' ''a.pdf'') = False
   \<and> fst (downloadPDFFile not_found_server
            ''https://www.bio-rad.com/sites/default/files/webroot/web/pdf/a.pdf'' ''PDFs'' ''a.pdf''
            empty_world) = Some (StatusError ''404 Not Found'')
   \<and> fetched (snd (download_twice not_found_server
            ''https://www.bio-rad.com/sites/default/files/webroot/web/pdf/a.pdf'' ''PDFs'' ''a.pdf''
            empty_world))
       = [''https://www.bio-rad.com/sites/default/files/webroot/web/pdf/a.pdf'',
          ''https://www.bio-rad.com/sites/default/files/webroot/web/pdf/a.pdf'']"
  by code_simp

text \<open>
  Claim C8, amended. If a regular file is at the joined destination path, the call
  returns success, fetches nothing and leaves the world as it is. Hence, when the first
  of two calls leaves a regular file at a destination that had none, the second call is
  skipped: the two calls fetch exactly once and end in the state the first call left.
  When the first call gets no response or a status other than 200, it creates nothing
  and the second call fetches again.
\<close>

theorem downloadPDFFile_skip_existing:
  "(fileExists w (filepath_Join dir name) \<longrightarrow>
      downloadPDFFile srv url dir name w = (None, w))
   \<and> (\<not> fileExists w (filepath_Join dir name)
       \<and> fileExists (snd (downloadPDFFile srv url dir name w)) (filepath_Join dir name) \<longrightarrow>
         download_twice srv url dir name w = (None, snd (downloadPDFFile srv url dir name w))
         \<and> fetched (snd (download_twice srv url dir name w)) = fetched w @ [url])
   \<and> (\<not> fileExists w (filepath_Join dir name)
       \<and> (case srv (length (fetched w)) url of
             Inl err \<Rightarrow> True
           | Inr resp \<Rightarrow> StatusCode resp \<noteq> 200) \<longrightarrow>
         fs (snd (downloadPDFFile srv url dir name w)) = fs w
         \<and> fetched (snd (download_twice srv url dir name w)) = fetched w @ [url, url])"
proof (intro conjI impI)
  show "downloadPDFFile srv url dir name w = (None, w)"
    if "fileExists w (filepath_Join dir name)"
    using that by (rule downloadPDFFile_exists)
next
  assume h: "\<not> fileExists w (filepath_Join dir name)
       \<and> fileExists (snd (downloadPDFFile srv url dir name w)) (filepath_Join dir name)"
  then show twice: "download_twice srv url dir name w =
      (None, snd (downloadPDFFile srv url dir name w))"
    by (simp add: download_twice_def downloadPDFFile_exists)
  show "fetched (snd (download_twice srv url dir name w)) = fetched w @ [url]"
    using h by (simp add: twice downloadPDFFile_fetches_once)
next
  assume h: "\<not> fileExists w (filepath_Join dir name)
       \<and> (case srv (length (fetched w)) url of
             Inl err \<Rightarrow> True
           | Inr resp \<Rightarrow> StatusCode resp \<noteq> 200)"
  let ?w1 = "w\<lparr>fetched := fetched w @ [url]\<rparr>"
  have first: "snd (downloadPDFFile srv url dir name w) = ?w1"
    using h by (auto simp: downloadPDFFile_status downloadPDFFile_fetch_error split: sum.splits)
  have no: "\<not> fileExists ?w1 (filepath_Join dir name)"
    using h by (simp add: fileExists_fetched)
  have second: "fetched (snd (downloadPDFFile srv url dir name ?w1)) = fetched ?w1 @ [url]"
    using no by (rule downloadPDFFile_fetches_once)
  show "fetched (snd (download_twice srv url dir name w)) = fetched w @ [url, url]"
    using first second by (simp add: download_twice_def)
  show "fs (snd (downloadPDFFile srv url dir name w)) = fs w"
    using first by simp
qed


text \<open>C8, amended, at a file that is present, at a first download that succeeds, and at a
  first download that is answered with \<^verbatim>\<open>404\<close>.\<close>

theorem downloadPDFFile_skip_existing_witness:
  "fileExists present_world (filepath_Join ''PDFs'' ''a.pdf'')
   \<and> downloadPDFFile ok_server ''https://www.bio-rad.com/a.pdf'' ''PDFs'' ''a.pdf'' present_world
       = (None, present_world)
   \<and> fileExists empty_world (filepath_Join ''PDFs'' ''a.pdf'') = False
   \<and> fileExists (snd (downloadPDFFile ok_server ''https://www.bio-rad.com/a.pdf'' ''PDFs'' ''a.pdf''
         empty_world)) (filepath_Join ''PDFs'' ''a.pdf'')
   \<and> fetched (snd (download_twice ok_server ''https://www.bio-rad.com/a.pdf'' ''PDFs'' ''a.pdf''
         empty_world)) = [''https://www.bio-rad.com/a.pdf'']
   \<and> fetched (snd (download_twice not_found_server ''https://www.bio-rad.com/a.pdf'' ''PDFs''
         ''a.pdf'' empty_world)) = [''https://www.bio-rad.com/a.pdf'', ''https://www.bio-rad.com/a.pdf'']"
proof -
  let ?p = "filepath_Join ''PDFs'' ''a.pdf''"
  let ?u = "''https://www.bio-rad.com/a.pdf''"
  have e: "fileExists present_world ?p" by code_simp
  have n: "\<not> fileExists empty_world ?p" by code_simp
  have c: "fileExists (snd (downloadPDFFile ok_server ?u ''PDFs'' ''a.pdf'' empty_world)) ?p"
    by code_simp
  have s: "case not_found_server (length (fetched empty_world)) ?u of
             Inl err \<Rightarrow> True
           | Inr resp \<Rightarrow> StatusCode resp \<noteq> 200"
    by (simp add: not_found_server_def)
  have f: "fetched empty_world = []" by (simp add: empty_world_def)
  from downloadPDFFile_skip_existing [of present_world "''PDFs''" "''a.pdf''" ok_server ?u] e
  have 1: "downloadPDFFile ok_server ?u ''PDFs'' ''a.pdf'' present_world = (None, present_world)"
    by blast
  from downloadPDFFile_skip_existing [of empty_world "''PDFs''" "''a.pdf''" ok_server ?u] n c
  have 2: "fetched (snd (download_twice ok_server ?u ''PDFs'' ''a.pdf'' empty_world))
      = fetched empty_world @ [?u]"
    by blast
  from downloadPDFFile_skip_existing [of empty_world "''PDFs''" "''a.pdf''" not_found_server ?u] n s
  have 3: "fetched (snd (download_twice not_found_server ?u ''PDFs'' ''a.pdf'' empty_world))
      = fetched empty_world @ [?u, ?u]"
    by blast
  from e n c 1 2 3 show ?thesis by (simp only: f append_Nil simp_thms)
qed

text \<open>
  Claim C10. When the destination has no file and the server answers the request with a
  status other than 200, \<^verbatim>\<open>downloadPDFFile\<close> returns the status error and the file
  system is what it was: the status is checked before \<^verbatim>\<open>os.MkdirAll\<close> and
  \<^verbatim>\<open>os.Create\<close>, so neither the directory nor the file is created. Only the request
  is recorded.
\<close>

theorem downloadPDFFile_bad_status:
  assumes "\<not> fileExists w (filepath_Join dir name)"
    and "srv (length (fetched w)) url = Inr resp"
    and "StatusCode resp \<noteq> 200"
  shows "fst (downloadPDFFile srv url dir name w) = Some (StatusError (Status resp))
         \<and> fs (snd (downloadPDFFile srv url dir name w)) = fs w
         \<and> fetched (snd (downloadPDFFile srv url dir name w)) = fetched w @ [url]"
  using assms by (simp add: downloadPDFFile_status)

text \<open>C10 at the empty file system and a server that answers \<^verbatim>\<open>404\<close>: neither
  \<^verbatim>\<open>PDFs\<close> nor the file exists afterwards.\<close>

theorem downloadPDFFile_bad_status_witness:
  "fileExists empty_world (filepath_Join ''PDFs'' ''a.pdf'') = False
   \<and> StatusCode \<lparr>StatusCode = 404, Status = ''404 Not Found'', Body = ''gone'', BodyFails = False\<rparr>
       = 404
   \<and> fst (downloadPDFFile not_found_server ''https://www.bio-rad.com/a.pdf'' ''PDFs'' ''a.pdf''
         empty_world) = Some (StatusError ''404 Not Found'')
   \<and> fs (snd (downloadPDFFile not_found_server ''https://www.bio-rad.com/a.pdf'' ''PDFs'' ''a.pdf''
         empty_world)) ''PDFs'' = None
   \<and> fs (snd (downloadPDFFile not_found_server ''https://www.bio-rad.com/a.pdf'' ''PDFs'' ''a.pdf''
         empty_world)) ''PDFs/a.pdf'' = None"
proof -
  let ?resp = "\<lparr>StatusCode = 404, Status = ''404 Not Found'', Body = ''gone'', BodyFails = False\<rparr>"
  let ?u = "''https://www.bio-rad.com/a.pdf''"
  have n: "\<not> fileExists empty_world (filepath_Join ''PDFs'' ''a.pdf'')" by code_simp
  have r: "not_found_server (length (fetched empty_world)) ?u = Inr ?resp"
    by (simp add: not_found_server_def)
  have c: "StatusCode ?resp \<noteq> 200" by simp
  have e: "fs empty_world = Map.empty" by (simp add: empty_world_def)
  note t = downloadPDFFile_bad_status
             [of empty_world "''PDFs''" "''a.pdf''" not_found_server ?u ?resp, OF n r c]
  from t n show ?thesis by (simp add: e)
qed

section \<open>Properties of the worker pool\<close>

lemma sum_list_map_update:
  fixes f :: "'a \<Rightarrow> 'b::comm_monoid_add"
  shows "k < length ws \<Longrightarrow>
    sum_list (map f (ws[k := w])) + f (ws ! k) = sum_list (map f ws) + f w"
proof (induction ws arbitrary: k)
  case Nil
  then show ?case by simp
next
  case (Cons a ws)
  show ?case
  proof (cases k)
    case 0
    then show ?thesis by (simp add: ac_simps)
  next
    case (Suc j)
    with Cons.prems have "j < length ws" by simp
    from Cons.IH [OF this] Suc show ?thesis by (simp add: ac_simps)
  qed
qed

lemma Exited_update:
  "Exited \<in> set (ws[k := w]) \<Longrightarrow> w \<noteq> Exited \<Longrightarrow> Exited \<in> set ws"
  using set_update_subset_insert [of ws k w] by auto

lemma pool_inv_init: "pool_inv numberOfWorkers downloadURLs pool_init"
  by (simp add: pool_inv_def pool_init_def)

lemma attempts_mono:
  "list_all (\<lambda>a. fst a < n) as \<Longrightarrow> list_all (\<lambda>a. fst a < Suc n) as"
  by (induction as) auto

lemma pool_inv_main_step:
  assumes "pool_inv numberOfWorkers downloadURLs s"
    and "main_step numberOfWorkers downloadURLs s = Some s'"
  shows "pool_inv numberOfWorkers downloadURLs s'"
proof (cases "main s")
  case (Launching i)
  show ?thesis
  proof (cases "i < numberOfWorkers")
    case True
    with assms Launching show ?thesis
      by (auto simp: pool_inv_def main_step_def attempts_mono)
  next
    case False
    with assms Launching show ?thesis
      by (auto simp: pool_inv_def main_step_def)
  qed
next
  case (Sending rest)
  show ?thesis
  proof (cases rest)
    case Nil
    with assms Sending show ?thesis
      by (auto simp: pool_inv_def main_step_def)
  next
    case (Cons url rest')
    with assms Sending show ?thesis
      by (auto simp: pool_inv_def main_step_def split: if_splits)
  qed
next
  case Waiting
  with assms show ?thesis
    by (auto simp: pool_inv_def main_step_def split: if_splits)
next
  case Finished
  with assms show ?thesis by (simp add: main_step_def)
qed


lemma alive_nonneg: "0 \<le> sum_list (map alive ws)"
proof (induction ws)
  case Nil
  show ?case by simp
next
  case (Cons a ws)
  then show ?case by (cases a) simp_all
qed

lemma alive_le_sum: "k < length ws \<Longrightarrow> alive (ws ! k) \<le> sum_list (map alive ws)"
proof (induction ws arbitrary: k)
  case Nil
  then show ?case by simp
next
  case (Cons a ws)
  show ?case
  proof (cases k)
    case 0
    then show ?thesis using alive_nonneg [of ws] by simp
  next
    case (Suc j)
    with Cons.prems have "j < length ws" by simp
    from Cons.IH [OF this] Suc show ?thesis by (cases a) simp_all
  qed
qed

lemma pool_invD:
  assumes "pool_inv numberOfWorkers downloadURLs s"
  shows "mset (map snd (attempts s)) + sum_list (map in_hand (workers s))
           + mset (urlChannel s) + mset (main_rest downloadURLs (main s)) = mset downloadURLs"
    and "wg s = sum_list (map alive (workers s))"
    and "case main s of
           Launching i \<Rightarrow> length (workers s) = i \<and> i \<le> numberOfWorkers
         | _ \<Rightarrow> length (workers s) = numberOfWorkers"
    and "closed s \<longleftrightarrow> main s = Waiting \<or> main s = Finished"
    and "Exited \<in> set (workers s) \<Longrightarrow> closed s \<and> urlChannel s = []"
    and "main s = Finished \<Longrightarrow> wg s = 0"
    and "list_all (\<lambda>a. fst a < length (workers s)) (attempts s)"
  using assms unfolding pool_inv_def by blast+

lemma pool_invI:
  assumes "mset (map snd (attempts s)) + sum_list (map in_hand (workers s))
           + mset (urlChannel s) + mset (main_rest downloadURLs (main s)) = mset downloadURLs"
    and "wg s = sum_list (map alive (workers s))"
    and "case main s of
           Launching i \<Rightarrow> length (workers s) = i \<and> i \<le> numberOfWorkers
         | _ \<Rightarrow> length (workers s) = numberOfWorkers"
    and "closed s \<longleftrightarrow> main s = Waiting \<or> main s = Finished"
    and "Exited \<in> set (workers s) \<Longrightarrow> closed s \<and> urlChannel s = []"
    and "main s = Finished \<Longrightarrow> wg s = 0"
    and "list_all (\<lambda>a. fst a < length (workers s)) (attempts s)"
  shows "pool_inv numberOfWorkers downloadURLs s"
  using assms unfolding pool_inv_def by blast

lemma pool_inv_worker:
  assumes inv: "pool_inv numberOfWorkers downloadURLs s"
    and step: "workerDownloadPDF_step k s = Some s'"
  shows "pool_inv numberOfWorkers downloadURLs s'"
proof -
  from step have k: "k < length (workers s)"
    by (simp add: workerDownloadPDF_step_def split: if_splits)
  note hand = sum_list_map_update [OF k, of in_hand]
  note live = sum_list_map_update [OF k, of alive]
  note d = pool_invD [OF inv]
  show ?thesis
  proof (cases "workers s ! k")
    case Receiving
    show ?thesis
    proof (cases "urlChannel s")
      case Nil
      with step k Receiving have c: "closed s"
        and s': "s' = s\<lparr>wg := wg s - 1, workers := (workers s)[k := Exited]\<rparr>"
        by (auto simp: workerDownloadPDF_step_def split: if_splits)
      have "main s \<noteq> Finished"
      proof
        assume "main s = Finished"
        with d(6) d(2) have "sum_list (map alive (workers s)) = 0" by simp
        with alive_le_sum [OF k] Receiving show False by simp
      qed
      with d(4) c have m: "main s = Waiting" by simp
      show ?thesis
      proof (rule pool_invI)
        show "mset (map snd (attempts s')) + sum_list (map in_hand (workers s'))
            + mset (urlChannel s') + mset (main_rest downloadURLs (main s')) = mset downloadURLs"
          using d(1) hand [of Exited] Receiving by (simp add: s')
        show "wg s' = sum_list (map alive (workers s'))"
          using d(2) live [of Exited] Receiving by (simp add: s')
        show "case main s' of
           Launching i \<Rightarrow> length (workers s') = i \<and> i \<le> numberOfWorkers
         | _ \<Rightarrow> length (workers s') = numberOfWorkers"
          using d(3) m by (simp add: s' split: main_pc.splits)
        show "closed s' \<longleftrightarrow> main s' = Waiting \<or> main s' = Finished"
          using d(4) by (simp add: s')
        show "closed s' \<and> urlChannel s' = []"
          using c Nil by (simp add: s')
        show "wg s' = 0" if "main s' = Finished"
          using that m by (simp add: s')
        show "list_all (\<lambda>a. fst a < length (workers s')) (attempts s')"
          using d(7) by (simp add: s')
      qed
    next
      case (Cons url rest)
      with step k Receiving
      have s': "s' = s\<lparr>urlChannel := rest, workers := (workers s)[k := Downloading url]\<rparr>"
        by (simp add: workerDownloadPDF_step_def)
      from d(5) Cons have no: "Exited \<notin> set (workers s)" by auto
      then have no': "Exited \<notin> set ((workers s)[k := Downloading url])"
        using Exited_update by blast
      show ?thesis
      proof (rule pool_invI)
        have "sum_list (map in_hand ((workers s)[k := Downloading url]))
            = sum_list (map in_hand (workers s)) + {#url#}"
          using hand [of "Downloading url"] Receiving by simp
        then show "mset (map snd (attempts s')) + sum_list (map in_hand (workers s'))
            + mset (urlChannel s') + mset (main_rest downloadURLs (main s')) = mset downloadURLs"
          using d(1) Cons by (simp add: s')
        show "wg s' = sum_list (map alive (workers s'))"
          using d(2) live [of "Downloading url"] Receiving by (simp add: s')
        show "case main s' of
           Launching i \<Rightarrow> length (workers s') = i \<and> i \<le> numberOfWorkers
         | _ \<Rightarrow> length (workers s') = numberOfWorkers"
          using d(3) by (simp add: s' split: main_pc.splits)
        show "closed s' \<longleftrightarrow> main s' = Waiting \<or> main s' = Finished"
          using d(4) by (simp add: s')
        show "closed s' \<and> urlChannel s' = []" if "Exited \<in> set (workers s')"
          using that no' by (simp add: s')
        show "wg s' = 0" if "main s' = Finished"
          using that d(6) by (simp add: s')
        show "list_all (\<lambda>a. fst a < length (workers s')) (attempts s')"
          using d(7) by (simp add: s')
      qed
    qed
  next
    case (Downloading url)
    with step k
    have s': "s' = s\<lparr>workers := (workers s)[k := Receiving],
                       attempts := attempts s @ [(k, url)]\<rparr>"
      by (simp add: workerDownloadPDF_step_def)
    have ex: "Exited \<in> set ((workers s)[k := Receiving]) \<Longrightarrow> Exited \<in> set (workers s)"
      using Exited_update by blast
    show ?thesis
    proof (rule pool_invI)
      have "sum_list (map in_hand (workers s))
          = sum_list (map in_hand ((workers s)[k := Receiving])) + {#url#}"
        using hand [of Receiving] Downloading by simp
      then show "mset (map snd (attempts s')) + sum_list (map in_hand (workers s'))
          + mset (urlChannel s') + mset (main_rest downloadURLs (main s')) = mset downloadURLs"
        using d(1) by (simp add: s')
      show "wg s' = sum_list (map alive (workers s'))"
        using d(2) live [of Receiving] Downloading by (simp add: s')
      show "case main s' of
         Launching i \<Rightarrow> length (workers s') = i \<and> i \<le> numberOfWorkers
       | _ \<Rightarrow> length (workers s') = numberOfWorkers"
        using d(3) by (simp add: s' split: main_pc.splits)
      show "closed s' \<longleftrightarrow> main s' = Waiting \<or> main s' = Finished"
        using d(4) by (simp add: s')
      show "closed s' \<and> urlChannel s' = []" if "Exited \<in> set (workers s')"
        using that ex d(5) by (simp add: s')
      show "wg s' = 0" if "main s' = Finished"
        using that d(6) by (simp add: s')
      show "list_all (\<lambda>a. fst a < length (workers s')) (attempts s')"
        using d(7) k by (simp add: s')
    qed
  next
    case Exited
    with step k show ?thesis by (simp add: workerDownloadPDF_step_def)
  qed
qed

lemma pool_inv_fire:
  "pool_inv numberOfWorkers downloadURLs s \<Longrightarrow>
   fire numberOfWorkers downloadURLs t s = Some s' \<Longrightarrow>
   pool_inv numberOfWorkers downloadURLs s'"
  by (cases t) (auto intro: pool_inv_main_step pool_inv_worker)

lemma pool_inv_run:
  "pool_inv numberOfWorkers downloadURLs s \<Longrightarrow>
   run numberOfWorkers downloadURLs schedule s = Some s' \<Longrightarrow>
   pool_inv numberOfWorkers downloadURLs s'"
proof (induction schedule arbitrary: s)
  case Nil
  then show ?case by simp
next
  case (Cons t ts)
  then show ?case
    by (auto split: option.splits dest: pool_inv_fire)
qed


lemma alive_zero_iff: "sum_list (map alive ws) = 0 \<longleftrightarrow> list_all (\<lambda>w. w = Exited) ws"
proof (induction ws)
  case Nil
  show ?case by simp
next
  case (Cons a ws)
  then show ?case using alive_nonneg [of ws] by (cases a) auto
qed

lemma in_hand_Exited: "list_all (\<lambda>w. w = Exited) ws \<Longrightarrow> sum_list (map in_hand ws) = {#}"
  by (induction ws) auto

lemma steps_left_main_step:
  assumes "main_step numberOfWorkers downloadURLs s = Some s'"
  shows "steps_left numberOfWorkers downloadURLs s' < steps_left numberOfWorkers downloadURLs s"
proof (cases "main s")
  case (Launching i)
  with assms show ?thesis
    by (auto simp: main_step_def steps_left_def split: if_splits)
next
  case (Sending rest)
  with assms show ?thesis
    by (cases rest) (auto simp: main_step_def steps_left_def split: if_splits)
next
  case Waiting
  with assms show ?thesis
    by (auto simp: main_step_def steps_left_def split: if_splits)
next
  case Finished
  with assms show ?thesis by (simp add: main_step_def)
qed

lemma steps_left_worker:
  assumes "workerDownloadPDF_step k s = Some s'"
  shows "steps_left numberOfWorkers downloadURLs s' < steps_left numberOfWorkers downloadURLs s"
proof -
  from assms have k: "k < length (workers s)"
    by (simp add: workerDownloadPDF_step_def split: if_splits)
  note w = sum_list_map_update [OF k, of worker_weight]
  show ?thesis
  proof (cases "workers s ! k")
    case Receiving
    show ?thesis
    proof (cases "urlChannel s")
      case Nil
      with assms k Receiving
      have "s' = s\<lparr>wg := wg s - 1, workers := (workers s)[k := Exited]\<rparr>"
        by (auto simp: workerDownloadPDF_step_def split: if_splits)
      with w [of Exited] Receiving show ?thesis by (simp add: steps_left_def)
    next
      case (Cons url rest)
      with assms k Receiving
      have "s' = s\<lparr>urlChannel := rest, workers := (workers s)[k := Downloading url]\<rparr>"
        by (simp add: workerDownloadPDF_step_def)
      with w [of "Downloading url"] Receiving Cons show ?thesis by (simp add: steps_left_def)
    qed
  next
    case (Downloading url)
    with assms k
    have "s' = s\<lparr>workers := (workers s)[k := Receiving],
                  attempts := attempts s @ [(k, url)]\<rparr>"
      by (simp add: workerDownloadPDF_step_def)
    with w [of Receiving] Downloading show ?thesis by (simp add: steps_left_def)
  next
    case Exited
    with assms k show ?thesis by (simp add: workerDownloadPDF_step_def)
  qed
qed

lemma steps_left_fire:
  "fire numberOfWorkers downloadURLs t s = Some s' \<Longrightarrow>
   steps_left numberOfWorkers downloadURLs s' < steps_left numberOfWorkers downloadURLs s"
  by (cases t) (auto intro: steps_left_main_step steps_left_worker)

lemma steps_left_run:
  "run numberOfWorkers downloadURLs schedule s = Some s' \<Longrightarrow>
   length schedule + steps_left numberOfWorkers downloadURLs s'
     \<le> steps_left numberOfWorkers downloadURLs s"
proof (induction schedule arbitrary: s)
  case Nil
  then show ?case by simp
next
  case (Cons t ts)
  from Cons.prems obtain s1 where f: "fire numberOfWorkers downloadURLs t s = Some s1"
    and r: "run numberOfWorkers downloadURLs ts s1 = Some s'"
    by (auto split: option.splits)
  from Cons.IH [OF r] steps_left_fire [OF f] show ?case by simp
qed

lemma pool_enabled:
  assumes inv: "pool_inv numberOfWorkers downloadURLs s" and "main s \<noteq> Finished"
  shows "\<exists>t s'. fire numberOfWorkers downloadURLs t s = Some s'"
proof -
  note d = pool_invD [OF inv]
  have main: "\<exists>s'. main_step numberOfWorkers downloadURLs s = Some s' \<Longrightarrow> ?thesis"
    by (metis fire.simps(1))
  have worker: "\<exists>s'. workerDownloadPDF_step k s = Some s' \<Longrightarrow> ?thesis" for k
    by (metis fire.simps(2))
  show ?thesis
  proof (cases "main s")
    case (Launching i)
    then show ?thesis by (intro main) (simp add: main_step_def)
  next
    case (Sending rest)
    show ?thesis
    proof (cases rest)
      case Nil
      with Sending show ?thesis by (intro main) (simp add: main_step_def)
    next
      case (Cons url rest')
      have "size (mset (map snd (attempts s)) + sum_list (map in_hand (workers s))
          + mset (urlChannel s) + mset (main_rest downloadURLs (main s)))
          = size (mset downloadURLs)"
        using d(1) by simp
      then have "size (mset (urlChannel s) + mset (main_rest downloadURLs (main s)))
          \<le> size (mset downloadURLs)"
        by (simp only: size_union)
      with Sending Cons have "length (urlChannel s) < length downloadURLs" by simp
      with Sending Cons show ?thesis by (intro main) (simp add: main_step_def)
    qed
  next
    case Waiting
    show ?thesis
    proof (cases "wg s = 0")
      case True
      with Waiting show ?thesis by (intro main) (simp add: main_step_def)
    next
      case False
      with d(2) have "\<not> list_all (\<lambda>w. w = Exited) (workers s)"
        by (simp add: alive_zero_iff)
      then obtain k where k: "k < length (workers s)" and w: "workers s ! k \<noteq> Exited"
        by (auto simp: list_all_length)
      from d(4) Waiting have c: "closed s" by simp
      show ?thesis
      proof (intro worker)
        show "\<exists>s'. workerDownloadPDF_step k s = Some s'"
          using k w c
          by (cases "workers s ! k"; cases "urlChannel s") (simp_all add: workerDownloadPDF_step_def)
      qed
    qed
  next
    case Finished
    with assms show ?thesis by simp
  qed
qed

lemma run_append:
  "run numberOfWorkers downloadURLs (xs @ ys) s =
     (case run numberOfWorkers downloadURLs xs s of
        None \<Rightarrow> None
      | Some s1 \<Rightarrow> run numberOfWorkers downloadURLs ys s1)"
  by (induction xs arbitrary: s) (auto split: option.splits)

lemma pool_can_finish:
  "pool_inv numberOfWorkers downloadURLs s \<Longrightarrow>
   \<exists>rest s'. run numberOfWorkers downloadURLs rest s = Some s' \<and> main s' = Finished"
proof (induction "steps_left numberOfWorkers downloadURLs s" arbitrary: s rule: less_induct)
  case less
  show ?case
  proof (cases "main s = Finished")
    case True
    then have "run numberOfWorkers downloadURLs [] s = Some s \<and> main s = Finished" by simp
    then show ?thesis by blast
  next
    case False
    from pool_enabled [OF less.prems False]
    obtain t s1 where f: "fire numberOfWorkers downloadURLs t s = Some s1" by blast
    from less.hyps [OF steps_left_fire [OF f] pool_inv_fire [OF less.prems f]]
    obtain rest s' where r: "run numberOfWorkers downloadURLs rest s1 = Some s'"
      and m: "main s' = Finished" by blast
    from f r have "run numberOfWorkers downloadURLs (t # rest) s = Some s'" by simp
    with m show ?thesis by blast
  qed
qed

lemma pool_finished:
  assumes inv: "pool_inv numberOfWorkers downloadURLs s"
    and fin: "main s = Finished" and w: "1 \<le> numberOfWorkers"
  shows "mset (map snd (attempts s)) = mset downloadURLs"
    and "list_all (\<lambda>w. w = Exited) (workers s)"
    and "length (workers s) = numberOfWorkers"
    and "urlChannel s = []"
proof -
  note d = pool_invD [OF inv]
  from d(6) [OF fin] d(2) show ex: "list_all (\<lambda>w. w = Exited) (workers s)"
    by (simp add: alive_zero_iff)
  from d(3) fin show len: "length (workers s) = numberOfWorkers" by simp
  from len w obtain a ws where "workers s = a # ws" by (cases "workers s") auto
  with ex have "Exited \<in> set (workers s)" by simp
  from d(5) [OF this] show ch: "urlChannel s = []" by simp
  from d(1) fin ch in_hand_Exited [OF ex]
  show "mset (map snd (attempts s)) = mset downloadURLs" by simp
qed

lemma pool_attempts_subset:
  assumes "pool_inv numberOfWorkers downloadURLs s"
  shows "mset (map snd (attempts s)) \<subseteq># mset downloadURLs"
proof -
  have "mset (map snd (attempts s)) \<subseteq>#
      mset (map snd (attempts s)) + (sum_list (map in_hand (workers s))
        + mset (urlChannel s) + mset (main_rest downloadURLs (main s)))"
    by (rule mset_subset_eq_add_left)
  with pool_invD(1) [OF assms] show ?thesis by (simp add: ac_simps)
qed


lemma finished_stuck:
  assumes inv: "pool_inv numberOfWorkers downloadURLs s" and fin: "main s = Finished"
  shows "fire numberOfWorkers downloadURLs t s = None"
proof (cases t)
  case MainThread
  with fin show ?thesis by (simp add: main_step_def)
next
  case (Worker k)
  note d = pool_invD [OF inv]
  from d(6) [OF fin] d(2) have "list_all (\<lambda>w. w = Exited) (workers s)"
    by (simp add: alive_zero_iff)
  then have "k < length (workers s) \<Longrightarrow> workers s ! k = Exited"
    by (simp add: list_all_length)
  with Worker show ?thesis by (simp add: workerDownloadPDF_step_def)
qed

text \<open>
  Claim C9. For every number of URLs and at least one worker, in every interleaving of
  \<^verbatim>\<open>main\<close> and the workers: once \<^verbatim>\<open>wg.Wait()\<close> has returned, the attempts made are
  the enqueued URLs, each as often as it was enqueued (so their number is the number of
  URLs), each made by one of the workers, every worker has ended, the channel is empty,
  and no thread can move any more. At no time are there more attempts than URLs. No
  interleaving is longer than a bound fixed at the start, and every state reached can
  be continued until \<^verbatim>\<open>wg.Wait()\<close> returns, so the pool does not block. Every
  download is taken to return.
\<close>

theorem worker_pool_attempts:
  assumes "1 \<le> numberOfWorkers"
    and "run numberOfWorkers downloadURLs schedule pool_init = Some s"
  shows "(main s = Finished \<longrightarrow>
            mset (map snd (attempts s)) = mset downloadURLs
            \<and> length (attempts s) = length downloadURLs
            \<and> list_all (\<lambda>a. fst a < numberOfWorkers) (attempts s)
            \<and> length (workers s) = numberOfWorkers
            \<and> list_all (\<lambda>w. w = Exited) (workers s)
            \<and> urlChannel s = []
            \<and> (\<forall>t. fire numberOfWorkers downloadURLs t s = None))
         \<and> mset (map snd (attempts s)) \<subseteq># mset downloadURLs
         \<and> length schedule + steps_left numberOfWorkers downloadURLs s
             \<le> steps_left numberOfWorkers downloadURLs pool_init
         \<and> (\<exists>rest s'. run numberOfWorkers downloadURLs rest s = Some s' \<and> main s' = Finished)"
proof -
  have inv: "pool_inv numberOfWorkers downloadURLs s"
    using pool_inv_init assms(2) by (rule pool_inv_run)
  have fin: "mset (map snd (attempts s)) = mset downloadURLs
            \<and> length (attempts s) = length downloadURLs
            \<and> list_all (\<lambda>a. fst a < numberOfWorkers) (attempts s)
            \<and> length (workers s) = numberOfWorkers
            \<and> list_all (\<lambda>w. w = Exited) (workers s)
            \<and> urlChannel s = []
            \<and> (\<forall>t. fire numberOfWorkers downloadURLs t s = None)"
    if f: "main s = Finished"
  proof -
    note p = pool_finished [OF inv f assms(1)]
    from p(1) have "size (mset (map snd (attempts s))) = size (mset downloadURLs)" by simp
    then have "length (attempts s) = length downloadURLs" by simp
    moreover have "list_all (\<lambda>a. fst a < numberOfWorkers) (attempts s)"
      using pool_invD(7) [OF inv] p(3) by simp
    moreover have "\<forall>t. fire numberOfWorkers downloadURLs t s = None"
      using finished_stuck [OF inv f] by simp
    ultimately show ?thesis using p by simp
  qed
  from fin pool_attempts_subset [OF inv] steps_left_run [OF assms(2)] pool_can_finish [OF inv]
  show ?thesis by blast
qed

text \<open>C9 on the sample schedule: two workers, three URLs; the run ends with
  \<^verbatim>\<open>wg.Wait()\<close> returned and three attempts, two by the first worker.\<close>

theorem worker_pool_attempts_witness:
  "(1::nat) \<le> 2
   \<and> run 2 [''u1'', ''u2'', ''u3''] sample_schedule pool_init =
       Some \<lparr>main = Finished, urlChannel = [], closed = True, wg = 0,
             workers = [Exited, Exited],
             attempts = [(0, ''u1''), (1, ''u2''), (0, ''u3'')]\<rparr>
   \<and> mset (map snd [(0::nat, ''u1''), (1, ''u2''), (0, ''u3'')]) = mset [''u1'', ''u2'', ''u3'']
   \<and> length sample_schedule + 0 \<le> steps_left 2 [''u1'', ''u2'', ''u3''] pool_init"
proof -
  let ?s = "\<lparr>main = Finished, urlChannel = [], closed = True, wg = 0,
             workers = [Exited, Exited],
             attempts = [(0, ''u1''), (1, ''u2''), (0, ''u3'')]\<rparr>"
  have w: "(1::nat) \<le> 2" by simp
  have r: "run 2 [''u1'', ''u2'', ''u3''] sample_schedule pool_init = Some ?s"
    by code_simp
  have z: "steps_left 2 [''u1'', ''u2'', ''u3''] ?s = 0"
    by (simp add: steps_left_def)
  note t = worker_pool_attempts [OF w r]
  from t have "mset (map snd (attempts ?s)) = mset [''u1'', ''u2'', ''u3'']" by simp
  moreover from t have "length sample_schedule + steps_left 2 [''u1'', ''u2'', ''u3''] ?s
      \<le> steps_left 2 [''u1'', ''u2'', ''u3''] pool_init" by blast
  ultimately show ?thesis using w r z by simp
qed

end
